theory Spec2Isabelle
  imports Main "HOL-Library.Word" "HOL-Library.Signed_Division"
begin

unbundle bit_operations_syntax

section \<open>Data model of the expression tree (libyasmx/expr.cpp)\<close>

text \<open>
  Modelled from the spec: the operator set of the glossary (the header declaring
  \<open>Op::Op\<close> is not part of the sources at hand). \<open>expr.cpp\<close> compares
  \<open>m_op > Op::NONNUM\<close> with the comment "non-numeric expression"; the operators the
  glossary lists from \<open>SEG\<close> on are the non-numeric ones.
\<close>

datatype op =
    ADD | SUB | MUL | DIV | SIGNDIV | MOD | SIGNMOD | NEG | NOT_OP | OR_OP | AND_OP
  | XOR_OP | XNOR | NOR | SHL | SHR | LOR | LAND | LNOT | LXOR | LXNOR | LNOR
  | LT | GT | LE | GE | NE | EQ | SEG | WRT | SEGOFF | IDENT | COND

text \<open>Modelled from the spec: \<open>m_op > Op::NONNUM\<close>, the non-numeric operators.\<close>

definition nonnum :: "op \<Rightarrow> bool" where
  "nonnum o1 = (o1 = SEG \<or> o1 = WRT \<or> o1 = SEGOFF \<or> o1 = IDENT \<or> o1 = COND)"

text \<open>
  Modelled from the spec: \<open>is_associative\<close> and \<open>is_unary\<close> are declared in the
  missing header; the data model names the associative operators
  (ADD, MUL, AND, OR, XOR, LAND, LOR) and the unary ones carry exactly one term.
\<close>

definition is_associative :: "op \<Rightarrow> bool" where
  "is_associative o1 =
     (o1 = ADD \<or> o1 = MUL \<or> o1 = AND_OP \<or> o1 = OR_OP \<or> o1 = XOR_OP \<or> o1 = LAND \<or> o1 = LOR)"

definition is_unary :: "op \<Rightarrow> bool" where
  "is_unary o1 = (o1 = NEG \<or> o1 = NOT_OP \<or> o1 = LNOT \<or> o1 = SEG \<or> o1 = IDENT)"

text \<open>
  Modelled from the spec: a FloatNum is an opaque binary float; only its sign matters
  to the expression code (\<open>calc(Op::NEG)\<close>), so it is a sign flag and an opaque
  magnitude.
\<close>

datatype floatnum = FloatNum bool nat

fun flt_neg :: "floatnum \<Rightarrow> floatnum" where
  "flt_neg (FloatNum s m) = FloatNum (\<not> s) m"

text \<open>
  ExprTerm is a tagged variant; Expr is an operator with an ordered term vector.
  IntNum is an arbitrary-precision integer, registers, symbols and locations are
  opaque handles.
\<close>

datatype exprterm =
    NONE
  | REG nat
  | INTN int
  | SUBST nat
  | FLOAT floatnum
  | SYM string
  | LOC nat
  | EXPR expr
and expr = Expr op "exprterm list"

datatype termtype = T_NONE | T_REG | T_INT | T_SUBST | T_FLOAT | T_SYM | T_LOC | T_EXPR

fun term_type :: "exprterm \<Rightarrow> termtype" where
  "term_type NONE = T_NONE"
| "term_type (REG r) = T_REG"
| "term_type (INTN n) = T_INT"
| "term_type (SUBST i) = T_SUBST"
| "term_type (FLOAT f) = T_FLOAT"
| "term_type (SYM s) = T_SYM"
| "term_type (LOC l) = T_LOC"
| "term_type (EXPR e) = T_EXPR"

definition is_type :: "exprterm \<Rightarrow> termtype \<Rightarrow> bool" where
  "is_type t ty = (term_type t = ty)"

fun get_expr :: "exprterm \<Rightarrow> expr option" where
  "get_expr (EXPR e) = Some e"
| "get_expr t = None"

fun get_int :: "exprterm \<Rightarrow> int option" where
  "get_int (INTN n) = Some n"
| "get_int t = None"

fun m_op :: "expr \<Rightarrow> op" where
  "m_op (Expr o1 ts) = o1"

fun m_terms :: "expr \<Rightarrow> exprterm list" where
  "m_terms (Expr o1 ts) = ts"

text \<open>
  What the C++ throws or leaves undefined is a value: \<open>ZeroDivisionError\<close> is thrown
  by \<open>IntNum::calc\<close>, \<open>OutOfRange\<close> is \<open>std::out_of_range\<close>, and
  \<open>UndefinedBehaviour\<close> stands for \<open>front()\<close>, \<open>back()\<close> or an iterator
  dereference on a vector that is too short, and for a null pointer dereference.
\<close>

datatype error = ZeroDivisionError | OutOfRange | UndefinedBehaviour

section \<open>The numeric kernel, as far as expressions use it\<close>

text \<open>
  Modelled from the spec: \<open>IntNum::calc(op, operand)\<close> on arbitrary-precision
  integers (the IntNum sources are not at hand). Division and modulo by zero signal
  \<open>ZeroDivisionError\<close>; the boolean and comparison operators yield 0 or 1; a unary
  operator ignores its operand. The spec gives the non-numeric operators no meaning on
  integers and \<open>expr.cpp\<close> never folds with them: they leave the integer as it is.
\<close>

fun calc :: "op \<Rightarrow> int \<Rightarrow> int \<Rightarrow> error + int" where
  "calc ADD a b = Inr (a + b)"
| "calc SUB a b = Inr (a - b)"
| "calc MUL a b = Inr (a * b)"
| "calc DIV a b = (if b = 0 then Inl ZeroDivisionError else Inr (a div b))"
| "calc SIGNDIV a b = (if b = 0 then Inl ZeroDivisionError else Inr (a sdiv b))"
| "calc MOD a b = (if b = 0 then Inl ZeroDivisionError else Inr (a mod b))"
| "calc SIGNMOD a b = (if b = 0 then Inl ZeroDivisionError else Inr (a smod b))"
| "calc NEG a b = Inr (- a)"
| "calc NOT_OP a b = Inr (NOT a)"
| "calc OR_OP a b = Inr (a OR b)"
| "calc AND_OP a b = Inr (a AND b)"
| "calc XOR_OP a b = Inr (a XOR b)"
| "calc XNOR a b = Inr (NOT (a XOR b))"
| "calc NOR a b = Inr (NOT (a OR b))"
| "calc SHL a b = Inr (push_bit (nat b) a)"
| "calc SHR a b = Inr (drop_bit (nat b) a)"
| "calc LOR a b = Inr (of_bool (a \<noteq> 0 \<or> b \<noteq> 0))"
| "calc LAND a b = Inr (of_bool (a \<noteq> 0 \<and> b \<noteq> 0))"
| "calc LNOT a b = Inr (of_bool (a = 0))"
| "calc LXOR a b = Inr (of_bool ((a \<noteq> 0) \<noteq> (b \<noteq> 0)))"
| "calc LXNOR a b = Inr (of_bool ((a \<noteq> 0) = (b \<noteq> 0)))"
| "calc LNOR a b = Inr (of_bool (\<not> (a \<noteq> 0 \<or> b \<noteq> 0)))"
| "calc LT a b = Inr (of_bool (a < b))"
| "calc GT a b = Inr (of_bool (a > b))"
| "calc LE a b = Inr (of_bool (a \<le> b))"
| "calc GE a b = Inr (of_bool (a \<ge> b))"
| "calc NE a b = Inr (of_bool (a \<noteq> b))"
| "calc EQ a b = Inr (of_bool (a = b))"
| "calc SEG a b = Inr a"
| "calc WRT a b = Inr a"
| "calc SEGOFF a b = Inr a"
| "calc IDENT a b = Inr a"
| "calc COND a b = Inr a"

definition is_zero :: "int \<Rightarrow> bool" where "is_zero n = (n = 0)"
definition is_pos1 :: "int \<Rightarrow> bool" where "is_pos1 n = (n = 1)"
definition is_neg1 :: "int \<Rightarrow> bool" where "is_neg1 n = (n = - 1)"

section \<open>Identity tables (expr.cpp, lines 45-86)\<close>

definition is_constant :: "op \<Rightarrow> int \<Rightarrow> bool" where
  "is_constant o1 intn =
     (let iszero = is_zero intn
      in (iszero \<and> o1 = MUL) \<or> (iszero \<and> o1 = AND_OP) \<or> (iszero \<and> o1 = LAND)
         \<or> (is_neg1 intn \<and> o1 = OR_OP))"

definition can_destroy_int_left :: "op \<Rightarrow> int \<Rightarrow> bool" where
  "can_destroy_int_left o1 intn =
     (let iszero = is_zero intn
      in (is_pos1 intn \<and> o1 = MUL) \<or> (iszero \<and> o1 = ADD) \<or> (is_neg1 intn \<and> o1 = AND_OP)
         \<or> (\<not> iszero \<and> o1 = LAND) \<or> (iszero \<and> o1 = OR_OP) \<or> (iszero \<and> o1 = LOR))"

definition can_destroy_int_right :: "op \<Rightarrow> int \<Rightarrow> bool" where
  "can_destroy_int_right o1 intn =
     (let iszero = is_zero intn; ispos1 = is_pos1 intn
      in (ispos1 \<and> o1 = MUL) \<or> (ispos1 \<and> o1 = DIV) \<or> (iszero \<and> o1 = ADD)
         \<or> (iszero \<and> o1 = SUB) \<or> (is_neg1 intn \<and> o1 = AND_OP) \<or> (\<not> iszero \<and> o1 = LAND)
         \<or> (iszero \<and> o1 = OR_OP) \<or> (iszero \<and> o1 = LOR) \<or> (iszero \<and> o1 = SHL)
         \<or> (iszero \<and> o1 = SHR))"

section \<open>Traversals\<close>

text \<open>\<open>traverse_leaves_in\<close>: left to right over the leaves, stopping at the first hit.\<close>

fun traverse_leaves_in :: "(exprterm \<Rightarrow> bool) \<Rightarrow> expr \<Rightarrow> bool"
and traverse_leaves_terms :: "(exprterm \<Rightarrow> bool) \<Rightarrow> exprterm list \<Rightarrow> bool" where
  "traverse_leaves_in func (Expr o1 ts) = traverse_leaves_terms func ts"
| "traverse_leaves_terms func [] = False"
| "traverse_leaves_terms func (EXPR e # rest) =
     (if traverse_leaves_in func e then True else traverse_leaves_terms func rest)"
| "traverse_leaves_terms func (t # rest) =
     (if func t then True else traverse_leaves_terms func rest)"

definition contains :: "expr \<Rightarrow> termtype \<Rightarrow> bool" where
  "contains e ty = traverse_leaves_in (\<lambda>t. is_type t ty) e"

text \<open>
  \<open>traverse_post\<close>: the sub-expressions first, then the node itself; the callback
  returns true to stop, and what was rewritten so far stays rewritten.
\<close>

fun traverse_post :: "(expr \<Rightarrow> bool \<times> expr) \<Rightarrow> expr \<Rightarrow> bool \<times> expr"
and traverse_post_terms :: "(expr \<Rightarrow> bool \<times> expr) \<Rightarrow> exprterm list \<Rightarrow> bool \<times> exprterm list" where
  "traverse_post func (Expr o1 ts) =
     (case traverse_post_terms func ts of
        (True, ts') \<Rightarrow> (True, Expr o1 ts')
      | (False, ts') \<Rightarrow> func (Expr o1 ts'))"
| "traverse_post_terms func [] = (False, [])"
| "traverse_post_terms func (EXPR e # rest) =
     (case traverse_post func e of
        (True, e') \<Rightarrow> (True, EXPR e' # rest)
      | (False, e') \<Rightarrow>
          (case traverse_post_terms func rest of (stop, rest') \<Rightarrow> (stop, EXPR e' # rest')))"
| "traverse_post_terms func (t # rest) =
     (case traverse_post_terms func rest of (stop, rest') \<Rightarrow> (stop, t # rest'))"

section \<open>Substitution\<close>

text \<open>
  \<open>substitute_cb\<close> walks the terms of one node; a clone is the value itself. An
  index past the end of \<open>subst_terms\<close> returns true (error) at once.
\<close>

fun substitute_cb_terms :: "exprterm list \<Rightarrow> exprterm list \<Rightarrow> bool \<times> exprterm list" where
  "substitute_cb_terms subst_terms [] = (False, [])"
| "substitute_cb_terms subst_terms (SUBST i # rest) =
     (if i \<ge> length subst_terms then (True, SUBST i # rest)
      else (case substitute_cb_terms subst_terms rest of
              (err, rest') \<Rightarrow> (err, subst_terms ! i # rest')))"
| "substitute_cb_terms subst_terms (t # rest) =
     (case substitute_cb_terms subst_terms rest of (err, rest') \<Rightarrow> (err, t # rest'))"

fun substitute_cb :: "exprterm list \<Rightarrow> expr \<Rightarrow> bool \<times> expr" where
  "substitute_cb subst_terms (Expr o1 ts) =
     (case substitute_cb_terms subst_terms ts of (err, ts') \<Rightarrow> (err, Expr o1 ts'))"

definition substitute :: "exprterm list \<Rightarrow> expr \<Rightarrow> bool \<times> expr" where
  "substitute subst_terms e = traverse_post (substitute_cb subst_terms) e"

text \<open>
  The claim's words: every \<open>SUBST(i)\<close> leaf of the tree is replaced by \<open>terms[i]\<close>.
  \<open>subst_indices\<close> lists the holes of a tree.
\<close>

fun subst_all :: "exprterm list \<Rightarrow> expr \<Rightarrow> expr"
and subst_all_term :: "exprterm list \<Rightarrow> exprterm \<Rightarrow> exprterm" where
  "subst_all subst_terms (Expr o1 ts) = Expr o1 (map (subst_all_term subst_terms) ts)"
| "subst_all_term subst_terms (SUBST i) = subst_terms ! i"
| "subst_all_term subst_terms (EXPR e) = EXPR (subst_all subst_terms e)"
| "subst_all_term subst_terms t = t"

fun subst_indices :: "expr \<Rightarrow> nat list"
and subst_indices_term :: "exprterm \<Rightarrow> nat list" where
  "subst_indices (Expr o1 ts) = concat (map subst_indices_term ts)"
| "subst_indices_term (SUBST i) = [i]"
| "subst_indices_term (EXPR e) = subst_indices e"
| "subst_indices_term t = []"

text \<open>Auxiliary notions for the proofs about \<open>substitute\<close>.\<close>

definition subst_ok :: "exprterm list \<Rightarrow> expr \<Rightarrow> bool" where
  "subst_ok st e = (\<forall>i \<in> set (subst_indices e). i < length st)"

definition children_ok :: "exprterm list \<Rightarrow> exprterm list \<Rightarrow> bool" where
  "children_ok st ts = (\<forall>t \<in> set ts. \<forall>e. t = EXPR e \<longrightarrow> subst_ok st e)"

definition leaves_ok :: "exprterm list \<Rightarrow> exprterm list \<Rightarrow> bool" where
  "leaves_ok st ts = (\<forall>i. SUBST i \<in> set ts \<longrightarrow> i < length st)"

fun subst_child :: "exprterm list \<Rightarrow> exprterm \<Rightarrow> exprterm" where
  "subst_child st (EXPR e) = EXPR (subst_all st e)"
| "subst_child st t = t"

section \<open>Negative normalization (expr.cpp, lines 263-365)\<close>

text \<open>
  \<open>xform_neg_term\<close> builds the sub-expression \<open>-1 * term\<close>. \<open>xform_neg_helper\<close>
  negates a whole expression; its \<open>ADD\<close> loop is \<open>xform_neg_helper_terms\<close>.
  \<open>front()\<close> on an empty term vector, and \<open>begin()+1\<close> where there is no second
  term, have no defined result.
\<close>

definition xform_neg_term :: "exprterm \<Rightarrow> exprterm" where
  "xform_neg_term t = EXPR (Expr MUL [INTN (- 1), t])"

fun xform_neg_helper :: "expr \<Rightarrow> error + expr"
and xform_neg_helper_terms :: "exprterm list \<Rightarrow> error + exprterm list" where
  "xform_neg_helper (Expr o1 ts) =
     (if o1 = ADD then
        (case xform_neg_helper_terms ts of Inl x \<Rightarrow> Inl x | Inr ts' \<Rightarrow> Inr (Expr ADD ts'))
      else if o1 = SUB then
        (case ts of
           [] \<Rightarrow> Inl UndefinedBehaviour
         | EXPR sube # rest \<Rightarrow>
             (case xform_neg_helper sube of
                Inl x \<Rightarrow> Inl x
              | Inr sube' \<Rightarrow> Inr (Expr ADD (EXPR sube' # rest)))
         | t # rest \<Rightarrow> Inr (Expr ADD (xform_neg_term t # rest)))
      else if o1 = NEG then Inr (Expr IDENT ts)
      else if o1 = IDENT then
        (case ts of
           [] \<Rightarrow> Inl UndefinedBehaviour
         | FLOAT flt # rest \<Rightarrow> Inr (Expr IDENT (FLOAT (flt_neg flt) # rest))
         | INTN intn # rest \<Rightarrow>
             (case calc NEG intn 0 of
                Inl x \<Rightarrow> Inl x
              | Inr v \<Rightarrow> Inr (Expr IDENT (INTN v # rest)))
         | EXPR e # rest \<Rightarrow>
             (if contains e T_FLOAT then
                (case xform_neg_helper e of
                   Inl x \<Rightarrow> Inl x
                 | Inr e' \<Rightarrow> Inr (Expr IDENT (EXPR e' # rest)))
              else Inr (Expr MUL (ts @ [INTN (- 1)])))
         | t # rest \<Rightarrow> Inr (Expr MUL (ts @ [INTN (- 1)])))
      else Inr (Expr MUL [INTN (- 1), EXPR (Expr o1 ts)]))"
| "xform_neg_helper_terms [] = Inr []"
| "xform_neg_helper_terms (EXPR sube # rest) =
     (case xform_neg_helper sube of
        Inl x \<Rightarrow> Inl x
      | Inr sube' \<Rightarrow>
          (case xform_neg_helper_terms rest of
             Inl x \<Rightarrow> Inl x
           | Inr rest' \<Rightarrow> Inr (EXPR sube' # rest')))"
| "xform_neg_helper_terms (t # rest) =
     (case xform_neg_helper_terms rest of
        Inl x \<Rightarrow> Inl x
      | Inr rest' \<Rightarrow> Inr (xform_neg_term t # rest'))"

fun xform_neg :: "expr \<Rightarrow> error + expr" where
  "xform_neg (Expr o1 ts) =
     (if o1 = NEG then xform_neg_helper (Expr IDENT ts)
      else if o1 = SUB then
        (case ts of
           a # EXPR sube # rest \<Rightarrow>
             (case xform_neg_helper sube of
                Inl x \<Rightarrow> Inl x
              | Inr sube' \<Rightarrow> Inr (Expr ADD (a # EXPR sube' # rest)))
         | a # rhs # rest \<Rightarrow> Inr (Expr ADD (a # xform_neg_term rhs # rest))
         | _ \<Rightarrow> Inl UndefinedBehaviour)
      else Inr (Expr o1 ts))"


section \<open>Leveling (expr.cpp, lines 367-618)\<close>

text \<open>
  The inner loop of \<open>level_op\<close> that replaces an IDENT sub-expression by its last
  term, again and again.
\<close>

function splice_ident :: "exprterm \<Rightarrow> error + exprterm" where
  "splice_ident t =
     (case get_expr t of
        None \<Rightarrow> Inr t
      | Some e \<Rightarrow>
          (if m_op e = IDENT then
             (if m_terms e = [] then Inl UndefinedBehaviour else splice_ident (last (m_terms e)))
           else Inr t))"
  by pat_completeness auto

lemma size_last_terms: "ts \<noteq> [] \<Longrightarrow> size (last ts) < size_list size ts"
  by (induction ts) auto

termination splice_ident
  apply (relation "measure size")
   apply simp
  subgoal for t e
    using size_last_terms[of "m_terms e"] by (cases t; cases e) auto
  done

text \<open>
  The first loop of \<open>level_op\<close>, left to right over the terms: \<open>done\<close> are the
  terms already visited, \<open>int_term\<close> the index of the first integer term (\<open>None\<close>
  for -1). A folded integer term is destroyed, which leaves the tombstone \<open>NONE\<close>.
\<close>

fun level_fold :: "op \<Rightarrow> bool \<Rightarrow> exprterm list \<Rightarrow> exprterm list \<Rightarrow> nat option \<Rightarrow> bool
                    \<Rightarrow> error + (exprterm list \<times> nat option \<times> bool)" where
  "level_fold o1 fold_const [] done int_term do_level = Inr (done, int_term, do_level)"
| "level_fold o1 fold_const (t # rest) done int_term do_level =
     (case splice_ident t of
        Inl x \<Rightarrow> Inl x
      | Inr t' \<Rightarrow>
          (let do_level' =
                 (do_level \<or> (case get_expr t' of Some e \<Rightarrow> m_op e = o1 | None \<Rightarrow> False))
           in case (if fold_const then get_int t' else None) of
                None \<Rightarrow> level_fold o1 fold_const rest (done @ [t']) int_term do_level'
              | Some intn_temp \<Rightarrow>
                  (case int_term of
                     None \<Rightarrow>
                       level_fold o1 fold_const rest (done @ [t']) (Some (length done)) do_level'
                   | Some k \<Rightarrow>
                       (case get_int (done ! k) of
                          None \<Rightarrow> Inl UndefinedBehaviour
                        | Some acc \<Rightarrow>
                            (case calc o1 acc intn_temp of
                               Inl x \<Rightarrow> Inl x
                             | Inr v \<Rightarrow>
                                 level_fold o1 fold_const rest (done[k := INTN v] @ [NONE])
                                   int_term do_level')))))"

text \<open>
  \<open>m_terms.erase(std::find_if(..., is_type INT))\<close>: the first term of type INT goes.
\<close>

definition erase_first_int :: "exprterm list \<Rightarrow> exprterm list" where
  "erase_first_int ts =
     takeWhile (\<lambda>t. \<not> is_type t T_INT) ts @ tl (dropWhile (\<lambda>t. \<not> is_type t T_INT) ts)"

text \<open>
  \<open>simplify_identity(intn, simplify_reg_mul)\<close>: the pointer \<open>intn\<close> is the index
  \<open>k\<close> of the term it points into, so \<open>intn == first\<close> is \<open>k = 0\<close>.
  \<open>simplify_delete\<close> is the block under \<open>m_terms.size() > 1\<close>: it yields the
  pointer that is left (null once the integer is deleted) and the terms.
  \<open>simplify_unary\<close> computes NOT, NEG and LNOT on a single integer.
\<close>

definition simplify_delete :: "expr \<Rightarrow> int \<Rightarrow> bool \<Rightarrow> bool \<Rightarrow> error + (int option \<times> exprterm list)" where
  "simplify_delete e n is_first simplify_reg_mul =
     (let o1 = m_op e; ts = m_terms e
      in if (simplify_reg_mul \<or> o1 \<noteq> MUL \<or> \<not> is_pos1 n \<or> \<not> contains e T_REG)
            \<and> ((is_first \<and> can_destroy_int_left o1 n) \<or> (\<not> is_first \<and> can_destroy_int_right o1 n))
         then Inr (None, erase_first_int ts)
         else if is_constant o1 n then
           (case find (\<lambda>t. is_type t T_INT) ts of
              None \<Rightarrow> Inl UndefinedBehaviour
            | Some i \<Rightarrow> Inr (get_int i, [i]))
         else Inr (Some n, ts))"

definition simplify_unary :: "op \<Rightarrow> bool \<Rightarrow> int option \<Rightarrow> exprterm list \<Rightarrow> error + exprterm list" where
  "simplify_unary o1 is_first intn ts =
     (case intn of
        None \<Rightarrow> Inr ts
      | Some n \<Rightarrow>
          (if length ts = 1 \<and> is_first \<and> (o1 = NOT_OP \<or> o1 = NEG \<or> o1 = LNOT)
           then (case calc o1 n 0 of Inl x \<Rightarrow> Inl x | Inr v \<Rightarrow> Inr [INTN v])
           else Inr ts))"

definition simplify_identity :: "expr \<Rightarrow> nat \<Rightarrow> bool \<Rightarrow> error + expr" where
  "simplify_identity e k simplify_reg_mul =
     (let o1 = m_op e; ts = m_terms e
      in if length ts \<le> k then Inl UndefinedBehaviour
         else
           (let intn = get_int (ts ! k);
                is_first = (get_int (hd ts) \<noteq> None \<and> k = 0)
            in case
                 (if length ts > 1 then
                    (case intn of
                       None \<Rightarrow> Inl UndefinedBehaviour
                     | Some n \<Rightarrow> simplify_delete e n is_first simplify_reg_mul)
                  else Inr (intn, ts))
               of
                 Inl x \<Rightarrow> Inl x
               | Inr (intn', ts') \<Rightarrow>
                   (case simplify_unary o1 is_first intn' ts' of
                      Inl x \<Rightarrow> Inl x
                    | Inr ts'' \<Rightarrow> Inr (Expr (if length ts'' = 1 then IDENT else o1) ts''))))"

text \<open>"If just an IDENT'ed expression, bring up expression to this level."\<close>

definition bring_up :: "expr \<Rightarrow> error + expr" where
  "bring_up e =
     (if m_op e = IDENT then
        (case m_terms e of
           [] \<Rightarrow> Inl UndefinedBehaviour
         | t # rest \<Rightarrow> (case get_expr t of Some sube \<Rightarrow> Inr sube | None \<Rightarrow> Inr e))
      else Inr e)"

text \<open>
  The second pass of \<open>level_op\<close> runs right to left and pushes onto \<open>terms\<close>, which
  is reversed at the end. \<open>level_absorb\<close> moves up the terms of one sub-expression
  (given last term first), \<open>level_copy\<close> is the outer loop.
\<close>

fun level_absorb :: "op \<Rightarrow> bool \<Rightarrow> exprterm list \<Rightarrow> exprterm list \<Rightarrow> nat option
                      \<Rightarrow> error + (exprterm list \<times> nat option)" where
  "level_absorb o1 fold_const [] terms int_term = Inr (terms, int_term)"
| "level_absorb o1 fold_const (u # rest) terms int_term =
     (case (if fold_const then get_int u else None) of
        Some intn_temp \<Rightarrow>
          (case int_term of
             Some k \<Rightarrow>
               (case get_int (terms ! k) of
                  None \<Rightarrow> Inl UndefinedBehaviour
                | Some acc \<Rightarrow>
                    (case calc o1 acc intn_temp of
                       Inl x \<Rightarrow> Inl x
                     | Inr v \<Rightarrow> level_absorb o1 fold_const rest (terms[k := INTN v]) int_term))
           | None \<Rightarrow> level_absorb o1 fold_const rest (terms @ [u]) (Some (length terms)))
      | None \<Rightarrow> level_absorb o1 fold_const rest (terms @ [u]) int_term)"

fun level_copy :: "op \<Rightarrow> bool \<Rightarrow> exprterm list \<Rightarrow> exprterm list \<Rightarrow> nat option
                    \<Rightarrow> error + (exprterm list \<times> nat option)" where
  "level_copy o1 fold_const [] terms int_term = Inr (terms, int_term)"
| "level_copy o1 fold_const (i # rest) terms int_term =
     (case (case get_expr i of Some e \<Rightarrow> if m_op e = o1 then Some e else None | None \<Rightarrow> None) of
        Some e \<Rightarrow>
          (case level_absorb o1 fold_const (rev (m_terms e)) terms int_term of
             Inl x \<Rightarrow> Inl x
           | Inr (terms', int_term') \<Rightarrow> level_copy o1 fold_const rest terms' int_term')
      | None \<Rightarrow>
          level_copy o1 fold_const rest (terms @ [i])
            (if int_term = None \<and> is_type i T_INT then Some (length terms) else int_term))"

text \<open>
  \<open>level_op\<close> in its two passes. \<open>level_first\<close> is the first loop with the erasure
  of the folded terms and the identity simplification; it also yields \<open>do_level\<close>.
  \<open>level_second\<close> copies the terms up, reverses them and simplifies again; it runs
  only when \<open>do_level\<close> is set and the operator is associative. \<open>fold_const\<close> is
  switched off for a non-numeric operator at the start.
\<close>

definition level_first :: "bool \<Rightarrow> bool \<Rightarrow> bool \<Rightarrow> expr \<Rightarrow> error + (expr \<times> bool)" where
  "level_first fold_const simplify_ident simplify_reg_mul e =
     (let o1 = m_op e
      in case level_fold o1 fold_const (m_terms e) [] None False of
           Inl x \<Rightarrow> Inl x
         | Inr (ts1, int_term, do_level) \<Rightarrow>
             (case
                (case int_term of
                   None \<Rightarrow> Inr (Expr o1 ts1)
                 | Some k \<Rightarrow>
                     (let ts2 = take (Suc k) ts1
                                @ filter (\<lambda>t. \<not> is_type t T_NONE) (drop (Suc k) ts1)
                      in if simplify_ident then simplify_identity (Expr o1 ts2) k simplify_reg_mul
                         else if length ts2 = 1 then Inr (Expr IDENT ts2)
                         else Inr (Expr o1 ts2)))
              of
                Inl x \<Rightarrow> Inl x
              | Inr e1 \<Rightarrow> Inr (e1, do_level)))"

definition level_second :: "bool \<Rightarrow> bool \<Rightarrow> bool \<Rightarrow> expr \<Rightarrow> error + expr" where
  "level_second fold_const simplify_ident simplify_reg_mul e2 =
     (case level_copy (m_op e2) fold_const (rev (m_terms e2)) [] None of
        Inl x \<Rightarrow> Inl x
      | Inr (terms, int_term) \<Rightarrow>
          (let e3 = Expr (m_op e2) (rev terms)
           in case
                (case (if simplify_ident then int_term else None) of
                   Some k \<Rightarrow>
                     simplify_identity e3 ((length (m_terms e3) - 1) - k) simplify_reg_mul
                 | None \<Rightarrow>
                     (if length (m_terms e3) = 1 then Inr (Expr IDENT (m_terms e3))
                      else Inr e3))
              of
                Inl x \<Rightarrow> Inl x
              | Inr e4 \<Rightarrow> bring_up e4))"

definition level_op :: "bool \<Rightarrow> bool \<Rightarrow> bool \<Rightarrow> expr \<Rightarrow> error + expr" where
  "level_op fold_const0 simplify_ident simplify_reg_mul e =
     (let fold_const = (fold_const0 \<and> \<not> nonnum (m_op e))
      in case level_first fold_const simplify_ident simplify_reg_mul e of
           Inl x \<Rightarrow> Inl x
         | Inr (e1, do_level) \<Rightarrow>
             (case bring_up e1 of
                Inl x \<Rightarrow> Inl x
              | Inr e2 \<Rightarrow>
                  (if \<not> do_level \<or> \<not> is_associative (m_op e2) then Inr e2
                   else level_second fold_const simplify_ident simplify_reg_mul e2)))"

text \<open>\<open>level_tree\<close>: the check for SEG of SEG:OFF.\<close>

definition seg_of_segoff :: "expr \<Rightarrow> error + expr" where
  "seg_of_segoff e =
     (if m_op e = SEG then
        (case m_terms e of
           [] \<Rightarrow> Inl UndefinedBehaviour
         | t # rest \<Rightarrow>
             (case get_expr t of
                None \<Rightarrow> Inr e
              | Some sube \<Rightarrow>
                  (if m_op sube = SEGOFF then
                     (if m_terms sube = [] then Inl UndefinedBehaviour
                      else Inr (Expr IDENT (EXPR (Expr IDENT (butlast (m_terms sube))) # rest)))
                   else Inr e)))
      else Inr e)"

fun sequence_err :: "(error + 'a) list \<Rightarrow> error + 'a list" where
  "sequence_err [] = Inr []"
| "sequence_err (x # xs) =
     (case x of
        Inl err \<Rightarrow> Inl err
      | Inr v \<Rightarrow> (case sequence_err xs of Inl err \<Rightarrow> Inl err | Inr vs \<Rightarrow> Inr (v # vs)))"

text \<open>
  A weight that bounds the tree after negative normalization, for the termination of
  \<open>level_tree\<close>: negation at most triples it.
\<close>

fun neg_weight :: "expr \<Rightarrow> nat"
and neg_weight_term :: "exprterm \<Rightarrow> nat" where
  "neg_weight (Expr o1 ts) =
     Suc ((if o1 = NEG \<or> o1 = SUB then 3 else 1) * sum_list (map neg_weight_term ts))"
| "neg_weight_term (EXPR e) = neg_weight e"
| "neg_weight_term t = 1"

text \<open>
  \<open>level_tree\<close>; \<open>xform_extra\<close> is the optional callback, run after the level is
  done and followed by one clean-up pass without callback.
\<close>

function level_tree :: "bool \<Rightarrow> bool \<Rightarrow> bool \<Rightarrow> (expr \<Rightarrow> expr) option \<Rightarrow> expr \<Rightarrow> error + expr" where
  "level_tree fold_const simplify_ident simplify_reg_mul xform_extra e =
     (case xform_neg e of
        Inl x \<Rightarrow> Inl x
      | Inr e1 \<Rightarrow>
          (case sequence_err
                  (map (\<lambda>i. case get_expr i of
                               None \<Rightarrow> Inr i
                             | Some sube \<Rightarrow>
                                 (case level_tree fold_const simplify_ident simplify_reg_mul
                                         xform_extra sube of
                                    Inl x \<Rightarrow> Inl x
                                  | Inr sube' \<Rightarrow> Inr (EXPR sube')))
                       (m_terms e1))
           of
             Inl x \<Rightarrow> Inl x
           | Inr ts \<Rightarrow>
               (case seg_of_segoff (Expr (m_op e1) ts) of
                  Inl x \<Rightarrow> Inl x
                | Inr e2 \<Rightarrow>
                    (case level_op fold_const simplify_ident simplify_reg_mul e2 of
                       Inl x \<Rightarrow> Inl x
                     | Inr e3 \<Rightarrow>
                         (case xform_extra of
                            None \<Rightarrow> Inr e3
                          | Some f \<Rightarrow>
                              level_tree fold_const simplify_ident simplify_reg_mul None
                                (f e3))))))"
  by pat_completeness auto

lemma neg_weight_pos: "0 < neg_weight e"
  by (cases e) simp

lemma neg_weight_term_pos: "0 < neg_weight_term t"
  by (cases t) (auto simp: neg_weight_pos)

lemma neg_weight_helper:
  "xform_neg_helper e = Inr e' \<Longrightarrow> neg_weight e' \<le> 3 * neg_weight e"
  "xform_neg_helper_terms ts = Inr ts' \<Longrightarrow>
     sum_list (map neg_weight_term ts') \<le> 3 * sum_list (map neg_weight_term ts)"
proof (induction e and ts arbitrary: e' and ts' rule: xform_neg_helper_xform_neg_helper_terms.induct)
  case (1 o1 ts)
  note IH = "1.IH" and prems = "1.prems"
  show ?case
  proof (cases "o1 = ADD")
    case True
    then show ?thesis using IH(1) prems
      by (auto split: sum.splits)
  next
    case notadd: False
    show ?thesis
    proof (cases "o1 = SUB")
      case True
      then show ?thesis using IH(2) prems notadd
        by (fastforce simp: xform_neg_term_def split: sum.splits list.splits exprterm.splits)
    next
      case notsub: False
      show ?thesis
      proof (cases "o1 = NEG")
        case True
        then show ?thesis using prems by auto
      next
        case notneg: False
        show ?thesis
        proof (cases "o1 = IDENT")
          case True
          then show ?thesis using IH(3) prems
            by (fastforce split: sum.splits list.splits exprterm.splits if_splits)
        next
          case False
          then show ?thesis using prems notadd notsub notneg by auto
        qed
      qed
    qed
  qed
next
  case 2
  then show ?case by simp
next
  case (3 sube rest)
  then show ?case by (fastforce split: sum.splits)
qed (fastforce simp: xform_neg_term_def split: sum.splits)+

lemma neg_weight_member:
  "t \<in> set ts \<Longrightarrow> neg_weight_term t \<le> sum_list (map neg_weight_term ts)"
  by (induction ts) auto

lemma neg_weight_child_plain:
  "EXPR c \<in> set ts \<Longrightarrow> neg_weight c < neg_weight (Expr o1 ts)"
  using neg_weight_member[of "EXPR c" ts] by (auto simp: less_Suc_eq_le intro: le_trans)

lemma neg_weight_child:
  assumes "xform_neg e = Inr e1" "EXPR c \<in> set (m_terms e1)"
  shows "neg_weight c < neg_weight e"
proof -
  obtain o1 ts where e: "e = Expr o1 ts" by (cases e)
  have mem: "EXPR c \<in> set xs \<Longrightarrow> neg_weight c \<le> sum_list (map neg_weight_term xs)" for xs
    using neg_weight_member[of "EXPR c" xs] by simp
  have pos: "0 < neg_weight_term t" for t by (rule neg_weight_term_pos)
  show ?thesis
  proof (cases "o1 = NEG")
    case True
    show ?thesis
    proof (cases ts)
      case Nil
      then show ?thesis using assms e True by simp
    next
      case (Cons t rest)
      show ?thesis
      proof (cases t)
        case (EXPR e0)
        show ?thesis
        proof (cases "contains e0 T_FLOAT")
          case True
          then obtain e0' where h: "xform_neg_helper e0 = Inr e0'" and e1: "e1 = Expr IDENT (EXPR e0' # rest)"
            using assms(1) e \<open>o1 = NEG\<close> Cons EXPR by (auto split: sum.splits)
          from assms(2) e1 have "c = e0' \<or> EXPR c \<in> set rest" by auto
          then show ?thesis
            using neg_weight_helper(1)[OF h] mem[of rest] e \<open>o1 = NEG\<close> Cons EXPR by auto
        next
          case False
          then have "e1 = Expr MUL (ts @ [INTN (- 1)])"
            using assms(1) e \<open>o1 = NEG\<close> Cons EXPR by auto
          then show ?thesis using assms(2) mem[of ts] e \<open>o1 = NEG\<close> by auto
        qed
      qed (use assms e True Cons mem[of rest] mem[of ts] in \<open>auto split: sum.splits\<close>)
    qed
  next
    case notneg: False
    show ?thesis
    proof (cases "o1 = SUB")
      case True
      show ?thesis
      proof (cases ts)
        case Nil
        then show ?thesis using assms e True by simp
      next
        case (Cons a ts1)
        show ?thesis
        proof (cases ts1)
          case Nil
          then show ?thesis using assms e True Cons by simp
        next
          case (Cons rhs rest)
          note ts1 = Cons
          show ?thesis
          proof (cases rhs)
            case (EXPR sube)
            then obtain sube' where h: "xform_neg_helper sube = Inr sube'"
              and e1: "e1 = Expr ADD (a # EXPR sube' # rest)"
              using assms(1) e True \<open>ts = a # ts1\<close> ts1 by (auto split: sum.splits)
            from assms(2) e1 have "EXPR c = a \<or> c = sube' \<or> EXPR c \<in> set rest" by auto
            then show ?thesis
              using neg_weight_helper(1)[OF h] mem[of rest] e True \<open>ts = a # ts1\<close> ts1 EXPR
              by auto
          qed (use assms e True \<open>ts = a # ts1\<close> ts1 mem[of rest] pos[of a] in
                 \<open>auto simp: xform_neg_term_def\<close>)
        qed
      qed
    next
      case False
      then show ?thesis
        using assms e notneg neg_weight_child_plain[of c ts o1] by auto
    qed
  qed
qed

termination level_tree
  apply (relation "measures [\<lambda>(fc, si, srm, xf, e). case xf of None \<Rightarrow> 0 | Some f \<Rightarrow> 1,
                             \<lambda>(fc, si, srm, xf, e). neg_weight e]")
    apply simp
  subgoal for fc si srm xf e e1 i sube
    using neg_weight_child[of e e1 sube] by (cases i) auto
  subgoal by simp
  done

text \<open>
  The claim's words on identity simplification: with the integer \<open>n\<close> of the level,
  \<open>0*x\<close>, \<open>-1|x\<close>, \<open>0&x\<close> and \<open>0&&x\<close> keep only the integer; \<open>1*x\<close>,
  \<open>0+x\<close>, \<open>-1&x\<close>, \<open>nonzero&&x\<close>, \<open>0|x\<close> and \<open>0||x\<close> delete the integer;
  \<open>x/1\<close>, \<open>x<<0\<close> and \<open>x>>0\<close> delete it when it is not the first term.
  \<open>only_int_at ts k n\<close>: the only integer term of \<open>ts\<close> is \<open>n\<close>, at index \<open>k\<close>.
\<close>

datatype identity_action = DeleteInt | KeepOnlyInt | NoChange

definition spec_identity :: "op \<Rightarrow> int \<Rightarrow> bool \<Rightarrow> identity_action" where
  "spec_identity o1 n int_first =
     (if (o1 = MUL \<and> n = 0) \<or> (o1 = OR_OP \<and> n = - 1) \<or> (o1 = AND_OP \<and> n = 0)
         \<or> (o1 = LAND \<and> n = 0)
      then KeepOnlyInt
      else if (o1 = MUL \<and> n = 1) \<or> (o1 = ADD \<and> n = 0) \<or> (o1 = AND_OP \<and> n = - 1)
         \<or> (o1 = LAND \<and> n \<noteq> 0) \<or> (o1 = OR_OP \<and> n = 0) \<or> (o1 = LOR \<and> n = 0)
      then DeleteInt
      else if \<not> int_first \<and> ((o1 = DIV \<and> n = 1) \<or> (o1 = SHL \<and> n = 0) \<or> (o1 = SHR \<and> n = 0))
      then DeleteInt
      else NoChange)"

definition only_int_at :: "exprterm list \<Rightarrow> nat \<Rightarrow> int \<Rightarrow> bool" where
  "only_int_at ts k n =
     (k < length ts \<and> ts ! k = INTN n
      \<and> list_all (\<lambda>t. \<not> is_type t T_INT) (take k ts @ drop (Suc k) ts))"



subsection \<open>The shape of a leveled tree\<close>

text \<open>
  A term of type INT.
\<close>

definition is_int :: "exprterm \<Rightarrow> bool" where
  "is_int t = is_type t T_INT"

text \<open>
  The shape of a leveled tree. Every node has a term; a node with a single term is an
  IDENT, a SEG, or a NOT or LNOT of a term that is no integer; the first term of an IDENT
  is no expression; a node whose operator is numeric and not associative holds at most
  one integer term; no sub-expression is an IDENT, and none has the associative operator
  of the node it stands in.
\<close>

fun leveled :: "expr \<Rightarrow> bool"
and leveled_terms :: "op \<Rightarrow> exprterm list \<Rightarrow> bool" where
  "leveled (Expr o1 ts) =
     (ts \<noteq> []
      \<and> (length ts = 1 \<longrightarrow>
           o1 = IDENT \<or> o1 = SEG \<or> ((o1 = NOT_OP \<or> o1 = LNOT) \<and> \<not> is_int (hd ts)))
      \<and> (o1 = IDENT \<longrightarrow> get_expr (hd ts) = None)
      \<and> (\<not> nonnum o1 \<and> \<not> is_associative o1 \<longrightarrow> length (filter is_int ts) \<le> 1)
      \<and> leveled_terms o1 ts)"
| "leveled_terms o1 [] = True"
| "leveled_terms o1 (EXPR c # rest) =
     (m_op c \<noteq> IDENT \<and> \<not> (is_associative o1 \<and> m_op c = o1) \<and> leveled c
      \<and> leveled_terms o1 rest)"
| "leveled_terms o1 (t # rest) = leveled_terms o1 rest"

text \<open>
  What the constructors of \<open>Expr\<close> build: every node has a term, and a node with a
  single term has a unary operator.
\<close>

fun arity_ok :: "expr \<Rightarrow> bool"
and arity_ok_terms :: "exprterm list \<Rightarrow> bool" where
  "arity_ok (Expr o1 ts) = (ts \<noteq> [] \<and> (length ts = 1 \<longrightarrow> is_unary o1) \<and> arity_ok_terms ts)"
| "arity_ok_terms [] = True"
| "arity_ok_terms (EXPR c # rest) = (arity_ok c \<and> arity_ok_terms rest)"
| "arity_ok_terms (t # rest) = arity_ok_terms rest"

text \<open>
  A term as the first loop of \<open>level_op\<close> leaves it: a leaf, or a leveled sub-expression that is no IDENT.
\<close>

definition good_term :: "exprterm \<Rightarrow> bool" where
  "good_term t = (case get_expr t of None \<Rightarrow> True | Some c \<Rightarrow> leveled c \<and> m_op c \<noteq> IDENT)"

text \<open>
  The invariant of the first loop of \<open>level_op\<close>: the visited terms are good,
  \<open>int_term\<close> points at an integer term, with folding on it is the only one, and
  \<open>do_level\<close> is set once a sub-expression with the operator of the node was seen.
\<close>

definition fold_inv :: "bool \<Rightarrow> op \<Rightarrow> exprterm list \<Rightarrow> nat option \<Rightarrow> bool \<Rightarrow> bool" where
  "fold_inv fc o1 done it dl =
     ((\<forall>t \<in> set done. good_term t)
      \<and> (case it of None \<Rightarrow> True | Some k \<Rightarrow> k < length done \<and> is_int (done ! k))
      \<and> (fc \<longrightarrow> length (filter is_int done) = (case it of None \<Rightarrow> 0 | Some k \<Rightarrow> 1))
      \<and> (\<not> dl \<longrightarrow> (\<forall>c. EXPR c \<in> set done \<longrightarrow> m_op c \<noteq> o1)))"

text \<open>
  The invariant of the second loop: \<open>int_term\<close> points at an integer term.
\<close>

definition abs_inv :: "exprterm list \<Rightarrow> nat option \<Rightarrow> bool" where
  "abs_inv acc it = (case it of None \<Rightarrow> True | Some k \<Rightarrow> k < length acc \<and> is_int (acc ! k))"

text \<open>
  Where a term of the second loop's result comes from: an integer, a term of the node
  that is no sub-expression with the node's operator, or a term of such a sub-expression.
\<close>

definition copied :: "op \<Rightarrow> exprterm list \<Rightarrow> exprterm \<Rightarrow> bool" where
  "copied o1 ts t =
     (is_int t \<or> (t \<in> set ts \<and> (\<forall>c. t = EXPR c \<longrightarrow> m_op c \<noteq> o1))
      \<or> (\<exists>p. EXPR p \<in> set ts \<and> m_op p = o1 \<and> t \<in> set (m_terms p)))"

text \<open>
  What the first pass of \<open>level_op\<close> establishes for its result \<open>e1\<close>.
\<close>

definition first_props :: "bool \<Rightarrow> op \<Rightarrow> exprterm list \<Rightarrow> expr \<Rightarrow> bool \<Rightarrow> bool" where
  "first_props fc o1 ts e1 dl = (m_terms e1 \<noteq> [] \<and>
      (\<forall>t \<in> set (m_terms e1). good_term t) \<and>
      (m_op e1 = o1 \<or> m_op e1 = IDENT) \<and>
      (length (m_terms e1) = 1 \<longrightarrow>
           m_op e1 = IDENT \<or> (length ts = 1 \<and> m_op e1 = o1 \<and> (fc \<longrightarrow> \<not> is_int (hd (m_terms e1))))) \<and>
      (fc \<longrightarrow> length (filter is_int (m_terms e1)) \<le> 1) \<and>
      (\<not> dl \<longrightarrow> (\<forall>c. EXPR c \<in> set (m_terms e1) \<longrightarrow> m_op c \<noteq> o1)))"

text \<open>
  A term handed to \<open>level_op\<close> by \<open>level_tree\<close>: a leaf or a leveled sub-expression.
\<close>

definition spliceable :: "exprterm \<Rightarrow> bool" where
  "spliceable t = (get_expr t = None \<or> (\<exists>c. t = EXPR c \<and> leveled c))"


section \<open>Bytes::read (libyasmx/Bytes.h)\<close>

text \<open>
  A Bytes is a vector of unsigned char with a read position of type \<open>size_type\<close>, an
  unsigned machine word (64 bits here); \<open>m_readpos += n\<close> wraps. The returned
  pointer \<open>&at(oldpos)\<close> is the index \<open>oldpos\<close>; \<open>at\<close> is the checked accessor
  and throws \<open>std::out_of_range\<close> itself. The position is advanced before either
  check, so the new state is returned in every case.
\<close>

record bytes =
  contents :: "8 word list"
  m_bigendian :: bool
  m_readpos :: "64 word"

definition read :: "bytes \<Rightarrow> 64 word \<Rightarrow> (error + nat) \<times> bytes" where
  "read b n =
     (let oldpos = m_readpos b;
          b' = b\<lparr>m_readpos := oldpos + n\<rparr>
      in if unat (m_readpos b') > length (contents b) then (Inl OutOfRange, b')
         else if unat oldpos < length (contents b) then (Inr (unat oldpos), b')
         else (Inl OutOfRange, b'))"

section \<open>Extraction of SEG:OFF and WRT parts\<close>

fun extract_segoff :: "expr \<Rightarrow> expr option \<times> expr" where
  "extract_segoff (Expr o1 ts) =
     (if o1 \<noteq> SEGOFF \<or> length ts \<noteq> 2 then (None, Expr o1 ts)
      else (Some (case get_expr (hd ts) of Some e \<Rightarrow> e | None \<Rightarrow> Expr IDENT [hd ts]),
            Expr IDENT (tl ts)))"

fun extract_wrt :: "expr \<Rightarrow> expr option \<times> expr" where
  "extract_wrt (Expr o1 ts) =
     (if o1 \<noteq> WRT \<or> length ts \<noteq> 2 then (None, Expr o1 ts)
      else (Some (case get_expr (last ts) of Some e \<Rightarrow> e | None \<Rightarrow> Expr IDENT [last ts]),
            Expr IDENT (butlast ts)))"

text \<open>Construction of expressions (expr.cpp, lines 139-226).\<close>

function add_term_find :: "expr \<Rightarrow> expr option \<Rightarrow> expr option" where
  "add_term_find e copyfrom =
     (if m_op e \<noteq> IDENT then copyfrom
      else (case m_terms e of
              [t] \<Rightarrow> (case get_expr t of None \<Rightarrow> Some e | Some sube \<Rightarrow> add_term_find sube (Some e))
            | _ \<Rightarrow> Some e))"
  by pat_completeness auto
termination
proof (relation "measure (\<lambda>(e, c). size e)")
  show "wf (measure (\<lambda>(e, c). size e))" by simp
next
  fix e :: expr and copyfrom :: "expr option" and t ts sube
  assume "m_terms e = t # ts" "ts = []" "get_expr t = Some sube"
  then show "((sube, Some e), (e, copyfrom)) \<in> measure (\<lambda>(e, c). size e)"
    by (cases e; cases t) auto
qed

definition add_term :: "exprterm list \<Rightarrow> exprterm \<Rightarrow> exprterm list" where
  "add_term terms t =
     (case get_expr t of
        None \<Rightarrow> terms @ [t]
      | Some base_e \<Rightarrow>
          (case add_term_find base_e None of
             None \<Rightarrow> terms @ [EXPR base_e]
           | Some copyfrom \<Rightarrow> terms @ m_terms copyfrom))"

definition Expr2 :: "exprterm \<Rightarrow> op \<Rightarrow> exprterm \<Rightarrow> expr" where
  "Expr2 a o1 b = Expr o1 (add_term (add_term [] a) b)"

definition Expr1 :: "exprterm \<Rightarrow> expr" where
  "Expr1 a = Expr IDENT (add_term [] a)"


text \<open>
  Modelled from the spec: evaluating an expression whose leaves are integers, by
  \<open>calc\<close>, left to right over the terms of a node. \<open>None\<close> when a leaf is not an
  integer, a division is by zero or the shape is not evaluable.
\<close>

fun calc_list :: "op \<Rightarrow> int \<Rightarrow> int list \<Rightarrow> int option" where
  "calc_list o1 acc [] = Some acc"
| "calc_list o1 acc (v # vs) =
     (case calc o1 acc v of Inl x \<Rightarrow> None | Inr r \<Rightarrow> calc_list o1 r vs)"

fun eval_int :: "expr \<Rightarrow> int option"
and eval_terms :: "exprterm list \<Rightarrow> int list option" where
  "eval_int (Expr o1 ts) =
     (case eval_terms ts of
        None \<Rightarrow> None
      | Some [] \<Rightarrow> None
      | Some [v] \<Rightarrow>
          (if o1 = IDENT then Some v
           else if o1 = NEG \<or> o1 = NOT_OP \<or> o1 = LNOT
           then (case calc o1 v 0 of Inl x \<Rightarrow> None | Inr r \<Rightarrow> Some r)
           else None)
      | Some (v # w # vs) \<Rightarrow>
          (if is_unary o1 \<or> nonnum o1 then None else calc_list o1 v (w # vs)))"
| "eval_terms [] = Some []"
| "eval_terms (INTN n # rest) =
     (case eval_terms rest of None \<Rightarrow> None | Some vs \<Rightarrow> Some (n # vs))"
| "eval_terms (EXPR e # rest) =
     (case eval_int e of
        None \<Rightarrow> None
      | Some v \<Rightarrow> (case eval_terms rest of None \<Rightarrow> None | Some vs \<Rightarrow> Some (v # vs)))"
| "eval_terms (t # rest) = None"

section \<open>The NASM parser (modules/parsers/nasm/NasmParser_parse.cpp)\<close>

text \<open>
  A SymbolRef is a handle that may be null. The Object is not part of the sources at
  hand: its lookups \<open>getSymbol\<close> and \<open>FindSpecialSymbol\<close> are parameters, as are
  its sections as far as \<open>DirAlign\<close> touches them.
\<close>

datatype symbol_ref = TableSymbol string | SpecialSymbol string

fun getName :: "symbol_ref \<Rightarrow> string" where
  "getName (TableSymbol n) = n"
| "getName (SpecialSymbol n) = n"

datatype bytecode = AlignBytecode expr | OtherBytecode

record bc_section =
  sect_align :: nat
  sect_bytecodes :: "bytecode list"

record object =
  getSymbol :: "string \<Rightarrow> symbol_ref option"
  FindSpecialSymbol :: "string \<Rightarrow> symbol_ref option"
  sections :: "bc_section list"
  cur_section :: "nat option"

datatype diag = warn_no_nonlocal

datatype symbol_def = DefineEqu expr | DefineLabel_at_bytecode

record identifier_info =
  ii_name :: string
  ii_symbol :: "symbol_ref option"

text \<open>An empty Expr has no terms.\<close>

definition empty_expr :: expr where
  "empty_expr = Expr IDENT []"

definition isEmpty :: "expr \<Rightarrow> bool" where
  "isEmpty e = (m_terms e = [])"

record nasm_parser =
  m_object :: object
  m_locallabel_base :: string
  m_absstart :: expr
  m_abspos :: expr
  diags :: "diag list"
  definitions :: "(string \<times> symbol_def) list"

text \<open>\<open>name[i]\<close> on a C string: the terminator stands after the last character.\<close>

definition char_at :: "string \<Rightarrow> nat \<Rightarrow> char" where
  "char_at s i = (if i < length s then s ! i else CHR 0x00)"

text \<open>
  \<open>ParseSymbol\<close> returns the symbol and the flag \<open>*local\<close>, and updates the cache of
  the identifier and the diagnostics. \<open>len\<close> is the length of the identifier as
  written: skipping an initial \<open>$\<close> moves \<open>name\<close> but leaves \<open>len\<close>.
\<close>

definition ParseSymbol ::
  "nasm_parser \<Rightarrow> identifier_info \<Rightarrow> symbol_ref option \<times> bool \<times> identifier_info \<times> nasm_parser" where
  "ParseSymbol p ii =
     (let len = length (ii_name ii)
      in case ii_symbol ii of
           Some cached \<Rightarrow> (Some cached, False, ii, p)
         | None \<Rightarrow>
             (let name = (if char_at (ii_name ii) 0 = CHR ''$'' then drop 1 (ii_name ii)
                          else ii_name ii)
              in if len > 1 \<and> char_at name 0 = CHR ''.'' then
                   (if len > 2 \<and> char_at name 1 = CHR ''.'' then
                      (if len > 3 \<and> char_at name 2 = CHR ''@'' then
                         (let symb = getSymbol (m_object p) name
                          in (symb, False, ii\<lparr>ii_symbol := symb\<rparr>, p))
                       else
                         (let symb = FindSpecialSymbol (m_object p) (drop 2 name)
                          in (symb, False, ii\<lparr>ii_symbol := symb\<rparr>, p)))
                    else
                      (getSymbol (m_object p) (m_locallabel_base p @ name), True, ii,
                       if m_locallabel_base p = [] then p\<lparr>diags := diags p @ [warn_no_nonlocal]\<rparr>
                       else p))
                 else
                   (let symb = getSymbol (m_object p) name
                    in (symb, False, ii\<lparr>ii_symbol := symb\<rparr>, p))))"

text \<open>
  \<open>DefineLabel\<close>: a non-local label becomes the base of the local labels; the symbol
  is then defined as an equate to the absolute position, or as a label at a fresh
  bytecode (whose location is not modelled).
\<close>

definition DefineLabel :: "nasm_parser \<Rightarrow> symbol_ref \<Rightarrow> bool \<Rightarrow> nasm_parser" where
  "DefineLabel p symb local =
     (let p1 = (if \<not> local then p\<lparr>m_locallabel_base := getName symb\<rparr> else p)
      in if \<not> isEmpty (m_abspos p1)
         then p1\<lparr>definitions := definitions p1 @ [(getName symb, DefineEqu (m_abspos p1))]\<rparr>
         else p1\<lparr>definitions := definitions p1 @ [(getName symb, DefineLabel_at_bytecode)]\<rparr>)"

definition DirAbsolute :: "nasm_parser \<Rightarrow> expr \<Rightarrow> nasm_parser" where
  "DirAbsolute p start =
     p\<lparr>m_absstart := start, m_abspos := start,
       m_object := (m_object p)\<lparr>cur_section := None\<rparr>\<rparr>"

text \<open>
  Modelled from the spec: \<open>isExp2\<close>, "alignments must be a power of two" (the helper
  is not at hand).
\<close>

definition isExp2 :: "nat \<Rightarrow> bool" where
  "isExp2 n = (n \<noteq> 0 \<and> (int n) AND (int n - 1) = 0)"

text \<open>
  \<open>DirAlign\<close> with the boundary expression of the directive. In an absolute section
  no bytecode is appended: \<open>SUB(m_absstart, m_abspos)\<close>, \<open>e &= SUB(boundary, 1)\<close>
  and \<open>m_abspos += e\<close> build expressions (by the two-operand constructor of
  \<open>expr.cpp\<close>). Otherwise the simplified boundary may raise the alignment of the
  current section and an align bytecode is appended to it.
\<close>

definition DirAlign :: "nasm_parser \<Rightarrow> expr \<Rightarrow> error + nasm_parser" where
  "DirAlign p boundary =
     (if \<not> isEmpty (m_abspos p) then
        (let e = Expr2 (EXPR (m_absstart p)) SUB (EXPR (m_abspos p));
             e' = Expr2 (EXPR e) AND_OP (EXPR (Expr2 (EXPR boundary) SUB (INTN 1)))
         in Inr (p\<lparr>m_abspos := Expr2 (EXPR (m_abspos p)) ADD (EXPR e')\<rparr>))
      else
        (case cur_section (m_object p) of
           None \<Rightarrow> Inl UndefinedBehaviour
         | Some c \<Rightarrow>
             (if length (sections (m_object p)) \<le> c then Inl UndefinedBehaviour
              else
                (case level_tree True True True None boundary of
                   Inl x \<Rightarrow> Inl x
                 | Inr boundval \<Rightarrow>
                     (let sect = sections (m_object p) ! c;
                          sect1 =
                            (case (if m_op boundval = IDENT \<and> m_terms boundval \<noteq> []
                                   then get_int (hd (m_terms boundval)) else None) of
                               None \<Rightarrow> sect
                             | Some n \<Rightarrow>
                                 (let boundint = nat (n mod 2 ^ 64)
                                  in if isExp2 boundint \<and> boundint > sect_align sect
                                     then sect\<lparr>sect_align := boundint\<rparr> else sect));
                          sect2 = sect1\<lparr>sect_bytecodes :=
                                          sect_bytecodes sect1 @ [AlignBytecode boundval]\<rparr>
                      in Inr (p\<lparr>m_object := (m_object p)\<lparr>sections :=
                                 (sections (m_object p))[c := sect2]\<rparr>\<rparr>))))))"


definition begins_with :: "string \<Rightarrow> string \<Rightarrow> bool" where
  "begins_with s pre = (take (length pre) s = pre)"

definition example_object :: object where
  "example_object =
     \<lparr>getSymbol = (\<lambda>n. Some (TableSymbol n)),
      FindSpecialSymbol = (\<lambda>n. if n = ''start'' then Some (SpecialSymbol n) else None),
      sections = [\<lparr>sect_align = 4, sect_bytecodes = [OtherBytecode]\<rparr>],
      cur_section = Some 0\<rparr>"

definition example_parser :: nasm_parser where
  "example_parser =
     \<lparr>m_object = example_object, m_locallabel_base = ''main'', m_absstart = empty_expr,
      m_abspos = empty_expr, diags = [], definitions = []\<rparr>"

section \<open>The preprocessor's expression evaluator (modules/parsers/nasm/nasm-eval.cpp)\<close>

text \<open>
  The tokens \<open>expr6\<close> tells apart; a character token carries its character, every
  token it does not name is \<open>TOKEN_OTHER\<close>. The scanner hands out the tokens of a
  list and \<open>TOKEN_EOS\<close> after the last one.
\<close>

datatype token =
    TOKEN_EOS
  | TOKEN_CHAR char
  | TOKEN_ID string
  | TOKEN_NUM int
  | TOKEN_HERE
  | TOKEN_BASE
  | TOKEN_SEG
  | TOKEN_PPDIR
  | TOKEN_OTHER nat

datatype severity = ERR_NONFATAL | ERR_FATAL

datatype message =
    UndefinedSymbolInPreprocessor string
  | CannotReferenceSymbolInPreprocessor string
  | NotSupported string
  | ExpectingRParen
  | ExpressionSyntaxError

text \<open>
  Modelled from the spec: \<open>Object::getSymbol\<close> is not under src/. Section 4.3: the
  symbol table is keyed by name, and "creating a reference to a name that does not
  exist inserts an undefined entry". The evaluator touches of the Object only its symbol
  table, kept here as the names that have an entry. \<open>getSymbol\<close> hands out the
  entry of the name, inserted first where it is missing; the handle it returns is a
  SymbolRef, which \<open>expr6\<close> tests for null.
\<close>

type_synonym symbol_table = "string list"

definition Object_getSymbol :: "symbol_table \<Rightarrow> string \<Rightarrow> symbol_ref option \<times> symbol_table" where
  "Object_getSymbol tab name =
     (Some (TableSymbol name), if name \<in> set tab then tab else tab @ [name])"

text \<open>
  The state of the evaluator: the current token \<open>i\<close>, the scanner's input, the errors
  reported, the global \<open>yasm_object\<close> (a pointer that may be null) and the uses
  recorded by \<open>sym->Use\<close>.
\<close>

record eval_state =
  i :: token
  input :: "token list"
  errors :: "(severity \<times> message) list"
  yasm_object :: "symbol_table option"
  used :: "symbol_ref list"

definition scan :: "eval_state \<Rightarrow> eval_state" where
  "scan st = (case input st of
                [] \<Rightarrow> st\<lparr>i := TOKEN_EOS\<rparr>
              | t # rest \<Rightarrow> st\<lparr>i := t, input := rest\<rparr>)"

definition report :: "severity \<Rightarrow> message \<Rightarrow> eval_state \<Rightarrow> eval_state" where
  "report sev msg st = st\<lparr>errors := errors st @ [(sev, msg)]\<rparr>"

text \<open>
  \<open>e->Calc(op)\<close> with a unary operator, by the one-operand constructor of
  \<open>expr.cpp\<close>.
\<close>

definition Calc1 :: "op \<Rightarrow> expr \<Rightarrow> expr" where
  "Calc1 o1 e = Expr o1 (add_term [] (EXPR e))"

text \<open>
  \<open>expr6\<close>. The function pointer \<open>bexpr\<close> and the callbacks \<open>curly_evaluator\<close> and
  \<open>ppdir_evaluator\<close> (which return -1 on failure and move the scanner) are
  parameters. The result is the returned flag, the expression \<open>*e\<close> and the state.
\<close>

record callbacks =
  bexpr :: "expr \<Rightarrow> eval_state \<Rightarrow> bool \<times> expr \<times> eval_state"
  curly_evaluator :: "eval_state \<Rightarrow> int \<times> eval_state"
  ppdir_evaluator :: "eval_state \<Rightarrow> int \<times> eval_state"

definition example_callbacks :: callbacks where
  "example_callbacks =
     \<lparr>bexpr = (\<lambda>e st. (False, e, st)),
      curly_evaluator = (\<lambda>st. (- 1, st)),
      ppdir_evaluator = (\<lambda>st. (- 1, st))\<rparr>"

definition remaining :: "eval_state \<Rightarrow> nat" where
  "remaining st = length (input st) + (if i st = TOKEN_EOS then 0 else 1)"

function expr6 :: "callbacks \<Rightarrow> expr \<Rightarrow> eval_state \<Rightarrow> bool \<times> expr \<times> eval_state" where
  "expr6 cb e st =
     (if i st = TOKEN_CHAR CHR ''-'' then
        (case expr6 cb e (scan st) of
           (False, e', st') \<Rightarrow> (False, e', st')
         | (True, e', st') \<Rightarrow> (True, Calc1 NEG e', st'))
      else if i st = TOKEN_CHAR CHR ''+'' then expr6 cb e (scan st)
      else if i st = TOKEN_CHAR CHR ''~'' then
        (case expr6 cb e (scan st) of
           (False, e', st') \<Rightarrow> (False, e', st')
         | (True, e', st') \<Rightarrow> (True, Calc1 NOT_OP e', st'))
      else if i st = TOKEN_CHAR CHR ''!'' then
        (case expr6 cb e (scan st) of
           (False, e', st') \<Rightarrow> (False, e', st')
         | (True, e', st') \<Rightarrow> (True, Calc1 LNOT e', st'))
      else if i st = TOKEN_SEG then
        (case expr6 cb e (scan st) of
           (False, e', st') \<Rightarrow> (False, e', st')
         | (True, e', st') \<Rightarrow> (True, e', report ERR_NONFATAL (NotSupported ''SEG'') st'))
      else if i st = TOKEN_CHAR CHR ''('' then
        (case bexpr cb e (scan st) of
           (False, e', st') \<Rightarrow> (False, e', st')
         | (True, e', st') \<Rightarrow>
             (if i st' \<noteq> TOKEN_CHAR CHR '')''
              then (False, e', report ERR_NONFATAL ExpectingRParen st')
              else (True, e', scan st')))
      else if i st = TOKEN_CHAR CHR ''{'' then
        (case curly_evaluator cb st of
           (j, st') \<Rightarrow>
             (if j = - 1 then (False, e, st')
              else (True, Expr IDENT [INTN j], scan st')))
      else
        (case i st of
           TOKEN_NUM n \<Rightarrow> (True, Expr IDENT [INTN n], scan st)
         | TOKEN_ID name \<Rightarrow>
             (case yasm_object st of
                Some obj \<Rightarrow>
                  (case Object_getSymbol obj name of
                     (Some symb, obj') \<Rightarrow>
                       (True, Expr IDENT [SYM (getName symb)],
                        scan (st\<lparr>yasm_object := Some obj', used := used st @ [symb]\<rparr>))
                   | (None, obj') \<Rightarrow>
                       (True, Expr IDENT [INTN 1],
                        scan (report ERR_NONFATAL (UndefinedSymbolInPreprocessor name)
                                (st\<lparr>yasm_object := Some obj'\<rparr>))))
              | None \<Rightarrow>
                  (True, Expr IDENT [INTN 1],
                   scan (report ERR_NONFATAL (CannotReferenceSymbolInPreprocessor name) st)))
         | TOKEN_HERE \<Rightarrow>
             (True, Expr IDENT [INTN 1],
              scan (report ERR_NONFATAL (CannotReferenceSymbolInPreprocessor ''$'') st))
         | TOKEN_BASE \<Rightarrow>
             (True, Expr IDENT [INTN 1],
              scan (report ERR_NONFATAL (CannotReferenceSymbolInPreprocessor ''$$'') st))
         | TOKEN_PPDIR \<Rightarrow>
             (case ppdir_evaluator cb st of
                (j, st') \<Rightarrow>
                  (if j = - 1 then (False, e, st')
                   else (True, Expr IDENT [INTN j], scan st')))
         | _ \<Rightarrow> (False, e, report ERR_NONFATAL ExpressionSyntaxError st)))"
  by pat_completeness auto

lemma remaining_scan: "i st \<noteq> TOKEN_EOS \<Longrightarrow> remaining (scan st) < remaining st"
  by (auto simp: remaining_def scan_def split: list.splits)

termination expr6
  by (relation "measure (\<lambda>(cb, e, st). remaining st)") (auto intro: remaining_scan)


section \<open>Theorems\<close>

subsection \<open>Bytes::read\<close>

lemma read_without_wrap:
  assumes "unat (m_readpos b) + unat n < 2 ^ 64"
  shows "(fst (read b n) = Inr (unat (m_readpos b)))
           = (unat (m_readpos b) < length (contents b)
              \<and> unat (m_readpos b) + unat n \<le> length (contents b))
         \<and> (fst (read b n) \<noteq> Inr (unat (m_readpos b)) \<longrightarrow> fst (read b n) = Inl OutOfRange)
         \<and> unat (m_readpos (snd (read b n))) = unat (m_readpos b) + unat n
         \<and> contents (snd (read b n)) = contents b"
proof -
  have sum: "unat (m_readpos b + n) = unat (m_readpos b) + unat n"
    using assms by (simp add: unat_word_ariths)
  show ?thesis
    using sum by (auto simp: read_def Let_def)
qed

text \<open>
  C9: \<open>read\<close> breaks the claim, and its own documentation ("Throws
  std::out_of_range if not enough bytes left to read n bytes"), on two inputs. With
  three bytes in the buffer and the read position at 3, \<open>read(0)\<close> asks for no byte
  and 3 + 0 does not exceed the size, yet \<open>at(oldpos)\<close> throws. With the read position
  at 2 and \<open>n\<close> the largest \<open>size_type\<close>, 2^64 - 1, \<open>m_readpos += n\<close> wraps to 1, the test
  \<open>m_readpos > size()\<close> passes, and \<open>read\<close> returns the pointer to byte 2, with one
  byte left where \<open>n\<close> were asked for and the read position moved back.
\<close>

theorem read_contract_violations:
  "unat (3 :: 64 word) + unat (0 :: 64 word) \<le> length [1, 2, 3 :: 8 word]
   \<and> read \<lparr>contents = [1, 2, 3], m_bigendian = False, m_readpos = 3\<rparr> 0
       = (Inl OutOfRange, \<lparr>contents = [1, 2, 3], m_bigendian = False, m_readpos = 3\<rparr>)
   \<and> length [1, 2, 3 :: 8 word] < unat (2 :: 64 word) + unat (18446744073709551615 :: 64 word)
   \<and> read \<lparr>contents = [1, 2, 3], m_bigendian = False, m_readpos = 2\<rparr> 18446744073709551615
       = (Inr 2, \<lparr>contents = [1, 2, 3], m_bigendian = False, m_readpos = 1\<rparr>)"
  by (simp add: read_def)

subsection \<open>extract_segoff and extract_wrt\<close>

text \<open>
  C5, as the claim states it, fails for \<open>extract_segoff\<close>: it returns the left
  (segment) part and leaves the right (offset) part in the original.
\<close>

theorem extract_segoff_counterexample:
  "extract_segoff (Expr SEGOFF [INTN 1, INTN 2]) = (Some (Expr IDENT [INTN 1]), Expr IDENT [INTN 2])
   \<and> extract_segoff (Expr SEGOFF [INTN 1, INTN 2]) \<noteq> (Some (Expr IDENT [INTN 2]), Expr IDENT [INTN 1])"
  by simp

text \<open>
  C5 (amended): \<open>extract_segoff\<close> succeeds exactly on \<open>SEGOFF\<close> with two terms and
  \<open>extract_wrt\<close> exactly on \<open>WRT\<close> with two terms; any other shape returns null
  and leaves the expression unchanged. On success \<open>extract_segoff\<close> returns the left
  part and turns the original into the IDENT of the right part, while \<open>extract_wrt\<close>
  returns the right part and turns the original into the IDENT of the left part; a
  returned part that is not an expression is wrapped in an IDENT.
\<close>

theorem extract_parts:
  "extract_segoff (Expr SEGOFF [a, b])
     = (Some (case get_expr a of Some e \<Rightarrow> e | None \<Rightarrow> Expr IDENT [a]), Expr IDENT [b])
   \<and> extract_wrt (Expr WRT [a, b])
     = (Some (case get_expr b of Some e \<Rightarrow> e | None \<Rightarrow> Expr IDENT [b]), Expr IDENT [a])
   \<and> (fst (extract_segoff x) = None \<longleftrightarrow> \<not> (\<exists>l r. x = Expr SEGOFF [l, r]))
   \<and> (fst (extract_wrt x) = None \<longleftrightarrow> \<not> (\<exists>l r. x = Expr WRT [l, r]))
   \<and> (fst (extract_segoff x) = None \<longrightarrow> snd (extract_segoff x) = x)
   \<and> (fst (extract_wrt x) = None \<longrightarrow> snd (extract_wrt x) = x)"
proof -
  have two: "length ts = 2 \<longleftrightarrow> (\<exists>l r. ts = [l, r])" for ts :: "exprterm list"
    by (cases ts; cases "tl ts"; auto)
  obtain o1 ts where x: "x = Expr o1 ts" by (cases x)
  show ?thesis
    unfolding x by (auto simp: two split: option.splits)
qed

theorem extract_parts_witness:
  "extract_segoff (Expr SEGOFF [EXPR (Expr ADD [SYM ''s'', INTN 1]), REG 3])
     = (Some (Expr ADD [SYM ''s'', INTN 1]), Expr IDENT [REG 3])
   \<and> extract_wrt (Expr WRT [SYM ''a'', SYM ''b'']) = (Some (Expr IDENT [SYM ''b'']), Expr IDENT [SYM ''a''])
   \<and> fst (extract_segoff (Expr WRT [SYM ''a'', SYM ''b''])) = None
   \<and> snd (extract_segoff (Expr WRT [SYM ''a'', SYM ''b''])) = Expr WRT [SYM ''a'', SYM ''b'']
   \<and> fst (extract_wrt (Expr ADD [SYM ''a'', SYM ''b'', SYM ''c''])) = None
   \<and> snd (extract_wrt (Expr ADD [SYM ''a'', SYM ''b'', SYM ''c''])) = Expr ADD [SYM ''a'', SYM ''b'', SYM ''c'']"
  using extract_parts [of "EXPR (Expr ADD [SYM ''s'', INTN 1])" "REG 3"
                          "Expr WRT [SYM ''a'', SYM ''b'']"]
        extract_parts [of "SYM ''a''" "SYM ''b''"
                          "Expr ADD [SYM ''a'', SYM ''b'', SYM ''c'']"]
  by simp

subsection \<open>substitute\<close>

lemma children_ok_Cons:
  "children_ok st (t # ts) = ((\<forall>e. t = EXPR e \<longrightarrow> subst_ok st e) \<and> children_ok st ts)"
  by (auto simp: children_ok_def)

lemma leaves_ok_Cons:
  "leaves_ok st (t # ts) = ((\<forall>i. t = SUBST i \<longrightarrow> i < length st) \<and> leaves_ok st ts)"
  by (auto simp: leaves_ok_def)

lemma subst_ok_Expr: "subst_ok st (Expr o1 ts) = (children_ok st ts \<and> leaves_ok st ts)"
proof (induction ts)
  case Nil
  show ?case by (simp add: subst_ok_def children_ok_def leaves_ok_def)
next
  case (Cons t ts)
  then show ?case
    by (cases t) (auto simp: subst_ok_def children_ok_Cons leaves_ok_Cons)
qed

lemma cb_terms_ok:
  "leaves_ok st ts \<Longrightarrow>
   substitute_cb_terms st (map (subst_child st) ts) = (False, map (subst_all_term st) ts)"
proof (induction ts)
  case Nil
  show ?case by simp
next
  case (Cons t ts)
  then show ?case by (cases t) (auto simp: leaves_ok_Cons)
qed

lemma traverse_post_ok:
  "subst_ok st e \<Longrightarrow> traverse_post (substitute_cb st) e = (False, subst_all st e)"
  "children_ok st ts \<Longrightarrow>
   traverse_post_terms (substitute_cb st) ts = (False, map (subst_child st) ts)"
proof (induction "substitute_cb st" e and "substitute_cb st" ts
       rule: traverse_post_traverse_post_terms.induct)
  case (1 o1 ts)
  then show ?case by (simp add: subst_ok_Expr cb_terms_ok)
next
  case 2
  show ?case by simp
next
  case (3 e rest)
  from 3(3) have e: "subst_ok st e" and r: "children_ok st rest"
    by (simp_all add: children_ok_Cons)
  have first: "traverse_post (substitute_cb st) e = (False, subst_all st e)"
    using 3(1)[OF e] .
  have others: "traverse_post_terms (substitute_cb st) rest = (False, map (subst_child st) rest)"
    using 3(2)[OF first[symmetric] refl r] .
  show ?case by (simp add: first others)
qed (auto simp: children_ok_Cons)

lemma cb_terms_bad:
  "\<not> leaves_ok st ts \<Longrightarrow>
   fst (substitute_cb_terms st (map (subst_child st) ts))
   \<and> \<not> leaves_ok st (snd (substitute_cb_terms st (map (subst_child st) ts)))"
proof (induction ts)
  case Nil
  then show ?case by (simp add: leaves_ok_def)
next
  case (Cons t ts)
  then show ?case by (cases t) (auto simp: leaves_ok_Cons split: prod.splits)
qed

lemma traverse_post_bad:
  "\<not> subst_ok st e \<Longrightarrow>
   fst (traverse_post (substitute_cb st) e)
   \<and> \<not> subst_ok st (snd (traverse_post (substitute_cb st) e))"
  "\<not> children_ok st ts \<Longrightarrow>
   fst (traverse_post_terms (substitute_cb st) ts)
   \<and> \<not> children_ok st (snd (traverse_post_terms (substitute_cb st) ts))"
proof (induction "substitute_cb st" e and "substitute_cb st" ts
       rule: traverse_post_traverse_post_terms.induct)
  case (1 o1 ts)
  show ?case
  proof (cases "children_ok st ts")
    case True
    with 1 have "\<not> leaves_ok st ts" by (simp add: subst_ok_Expr)
    then show ?thesis
      using True cb_terms_bad[of st ts]
      by (auto simp: traverse_post_ok subst_ok_Expr split: prod.splits)
  next
    case False
    then show ?thesis
      using 1 by (auto simp: subst_ok_Expr split: prod.splits bool.splits)
  qed
next
  case 2
  then show ?case by (simp add: children_ok_def)
next
  case (3 e rest)
  then show ?case
    by (cases "subst_ok st e")
       (auto simp: children_ok_Cons traverse_post_ok split: prod.splits bool.splits)
qed (auto simp: children_ok_Cons split: prod.splits)

text \<open>
  C6, as the claim states it, fails once a hole is out of range: \<open>substitute_cb\<close>
  returns true there and \<open>traverse_post\<close> stops on a true callback, so the holes
  that come later in the walk are not replaced although their index is in range. Here
  the first \<open>SUBST(0)\<close> is replaced by 7, the walk ends at \<open>SUBST(5)\<close>, and the
  last \<open>SUBST(0)\<close> stays.
\<close>

theorem substitute_counterexample:
  "substitute [INTN 7] (Expr ADD [SUBST 0, SUBST 5, SUBST 0])
     = (True, Expr ADD [INTN 7, SUBST 5, SUBST 0])
   \<and> 0 < length [INTN 7]
   \<and> SUBST 0 \<in> set (m_terms (snd (substitute [INTN 7] (Expr ADD [SUBST 0, SUBST 5, SUBST 0]))))"
  by (simp add: substitute_def)

text \<open>
  C6, amended: when every \<open>SUBST(i)\<close> leaf of the tree has \<open>i < terms.size()\<close>,
  \<open>substitute\<close> returns false and the tree in which each such leaf is replaced by
  (a clone of) \<open>terms[i]\<close>; when some leaf has \<open>i \<ge> terms.size()\<close> it returns
  true (error), and a hole with an index out of range is still in the tree: that leaf
  was not substituted.
\<close>

theorem substitute_replaces_every_hole:
  "((\<forall>i \<in> set (subst_indices e). i < length st)
      \<longrightarrow> substitute st e = (False, subst_all st e))
   \<and> ((\<exists>i \<in> set (subst_indices e). length st \<le> i)
      \<longrightarrow> fst (substitute st e)
          \<and> (\<exists>i \<in> set (subst_indices (snd (substitute st e))). length st \<le> i))"
proof -
  have bad: "(\<exists>i \<in> set (subst_indices x). length st \<le> i) = (\<not> subst_ok st x)" for x
    by (auto simp: subst_ok_def not_less)
  show ?thesis
    using traverse_post_ok(1)[of st e] traverse_post_bad(1)[of st e]
    unfolding bad substitute_def by (auto simp: subst_ok_def)
qed

theorem substitute_replaces_every_hole_witness:
  "substitute [INTN 7, EXPR (Expr MUL [SYM ''x'', SUBST 0])]
     (Expr ADD [SUBST 1, EXPR (Expr NEG [SUBST 0]), REG 2])
   = (False, Expr ADD [EXPR (Expr MUL [SYM ''x'', SUBST 0]), EXPR (Expr NEG [INTN 7]), REG 2])
   \<and> fst (substitute [INTN 7] (Expr ADD [SUBST 0, EXPR (Expr NEG [SUBST 1]), SUBST 0]))
   \<and> snd (substitute [INTN 7] (Expr ADD [SUBST 0, EXPR (Expr NEG [SUBST 1]), SUBST 0]))
       = Expr ADD [SUBST 0, EXPR (Expr NEG [SUBST 1]), SUBST 0]"
  using substitute_replaces_every_hole
          [of "Expr ADD [SUBST 1, EXPR (Expr NEG [SUBST 0]), REG 2]"
              "[INTN 7, EXPR (Expr MUL [SYM ''x'', SUBST 0])]"]
        substitute_replaces_every_hole
          [of "Expr ADD [SUBST 0, EXPR (Expr NEG [SUBST 1]), SUBST 0]" "[INTN 7]"]
  by (simp add: substitute_def)

subsection \<open>simplify_identity\<close>

lemma only_int_atD:
  assumes "only_int_at ts k n"
  shows "k < length ts" and "ts ! k = INTN n"
    and "\<And>j. j < length ts \<Longrightarrow> is_type (ts ! j) T_INT \<Longrightarrow> j = k"
proof -
  show k: "k < length ts" and "ts ! k = INTN n"
    using assms unfolding only_int_at_def by blast+
  have before: "\<And>t. t \<in> set (take k ts) \<Longrightarrow> \<not> is_type t T_INT"
    and after: "\<And>t. t \<in> set (drop (Suc k) ts) \<Longrightarrow> \<not> is_type t T_INT"
    using assms unfolding only_int_at_def list_all_iff by auto
  fix j
  assume j: "j < length ts" and int: "is_type (ts ! j) T_INT"
  show "j = k"
  proof (rule ccontr)
    assume "j \<noteq> k"
    then consider "j < k" | "k < j" by linarith
    then show False
    proof cases
      case 1
      then have "take k ts ! j = ts ! j" and "j < length (take k ts)" using k by simp_all
      then have "ts ! j \<in> set (take k ts)" by (metis nth_mem)
      then show False using before int by blast
    next
      case 2
      then have "drop (Suc k) ts ! (j - Suc k) = ts ! j"
        and "j - Suc k < length (drop (Suc k) ts)" using j by simp_all
      then have "ts ! j \<in> set (drop (Suc k) ts)" by (metis nth_mem)
      then show False using after int by blast
    qed
  qed
qed

lemma erase_only_int:
  assumes "only_int_at ts k n"
  shows "erase_first_int ts = take k ts @ drop (Suc k) ts"
proof -
  let ?P = "\<lambda>t. \<not> is_type t T_INT"
  note d = only_int_atD[OF assms]
  have k1: "k < length ts" and k2: "ts ! k = INTN n" using d by simp_all
  have k3: "?P (ts ! j)" if "j < k" for j
  proof
    assume "is_type (ts ! j) T_INT"
    moreover have "j < length ts" using that k1 by simp
    ultimately have "j = k" using d(3) by blast
    then show False using that by simp
  qed
  have tw: "takeWhile ?P ts = take k ts"
  proof (rule takeWhile_eq_take_P_nth)
    show "?P (ts ! i)" if "i < k" for i using k3[OF that] .
    show "\<not> ?P (ts ! k)" by (simp add: k2 is_type_def)
  qed
  have "dropWhile ?P ts = drop (length (takeWhile ?P ts)) ts"
    by (rule dropWhile_eq_drop)
  also have "length (takeWhile ?P ts) = k" unfolding tw using k1 by simp
  finally have dw: "dropWhile ?P ts = drop k ts" .
  have "tl (drop k ts) = drop (Suc k) ts" by (simp add: drop_Suc tl_drop)
  then show ?thesis
    unfolding erase_first_int_def tw dw by simp
qed

lemma find_only_int:
  assumes "only_int_at ts k n"
  shows "find (\<lambda>t. is_type t T_INT) ts = Some (INTN n)"
proof -
  note d = only_int_atD[OF assms]
  have "is_type (ts ! k) T_INT" by (simp add: d(2) is_type_def)
  moreover have "\<not> is_type (ts ! j) T_INT" if "j < k" for j
    using d(3)[of j] that d(1) by auto
  ultimately show ?thesis
    unfolding find_Some_iff using d(1,2) by (intro exI[of _ k]) simp
qed

lemma only_int_first:
  assumes "only_int_at ts k n"
  shows "get_int (hd ts) = (if k = 0 then Some n else None)"
proof -
  note d = only_int_atD[OF assms]
  have ne: "ts \<noteq> []" using d(1) by auto
  then have hd: "hd ts = ts ! 0" by (simp add: hd_conv_nth)
  show ?thesis
  proof (cases "k = 0")
    case True
    then show ?thesis using d(2) hd by simp
  next
    case False
    have "\<not> is_type (ts ! 0) T_INT" using d(3)[of 0] ne False by auto
    then have "get_int (ts ! 0) = None" by (cases "ts ! 0") (auto simp: is_type_def)
    then show ?thesis using False hd by simp
  qed
qed

lemma spec_identity_keep: "is_constant o1 n = (spec_identity o1 n b = KeepOnlyInt)"
  by (cases o1) (simp_all add: is_constant_def spec_identity_def is_zero_def is_neg1_def Let_def)

lemma spec_identity_delete:
  "o1 \<noteq> SUB \<Longrightarrow>
   ((b \<and> can_destroy_int_left o1 n) \<or> (\<not> b \<and> can_destroy_int_right o1 n))
     = (spec_identity o1 n b = DeleteInt)"
  by (cases o1; cases b)
     (simp_all add: can_destroy_int_left_def can_destroy_int_right_def spec_identity_def
        is_zero_def is_pos1_def is_neg1_def Let_def)

lemma is_constant_not_unary:
  "is_constant o1 n \<Longrightarrow> o1 \<noteq> NOT_OP \<and> o1 \<noteq> NEG \<and> o1 \<noteq> LNOT"
  by (auto simp: is_constant_def)

lemma simplify_delete_only_int:
  assumes "only_int_at ts k n"
  shows "simplify_delete (Expr o1 ts) n b srm =
           (if (srm \<or> o1 \<noteq> MUL \<or> \<not> is_pos1 n \<or> \<not> contains (Expr o1 ts) T_REG)
               \<and> ((b \<and> can_destroy_int_left o1 n) \<or> (\<not> b \<and> can_destroy_int_right o1 n))
            then Inr (None, take k ts @ drop (Suc k) ts)
            else if is_constant o1 n then Inr (Some n, [INTN n])
            else Inr (Some n, ts))"
  by (simp add: simplify_delete_def erase_only_int[OF assms] find_only_int[OF assms])

lemma simplify_identity_unfold:
  assumes "only_int_at ts k n" and "1 < length ts"
  shows "simplify_identity (Expr o1 ts) k srm =
           (if (srm \<or> o1 \<noteq> MUL \<or> \<not> is_pos1 n \<or> \<not> contains (Expr o1 ts) T_REG)
               \<and> ((k = 0 \<and> can_destroy_int_left o1 n) \<or> (k \<noteq> 0 \<and> can_destroy_int_right o1 n))
            then Inr (Expr (if length ts = 2 then IDENT else o1) (take k ts @ drop (Suc k) ts))
            else if is_constant o1 n then Inr (Expr IDENT [INTN n])
            else Inr (Expr o1 ts))"
proof -
  have k: "k < length ts" "ts ! k = INTN n" using only_int_atD[OF assms(1)] by simp_all
  have len: "(length (take k ts @ drop (Suc k) ts) = 1) = (length ts = 2)"
    using k by auto
  have first: "(get_int (hd ts) \<noteq> None \<and> k = 0) = (k = 0)"
    by (simp add: only_int_first[OF assms(1)])
  have si: "simplify_identity (Expr o1 ts) k srm =
      (case simplify_delete (Expr o1 ts) n (k = 0) srm of
         Inl x \<Rightarrow> Inl x
       | Inr (intn', ts') \<Rightarrow>
           (case simplify_unary o1 (k = 0) intn' ts' of
              Inl x \<Rightarrow> Inl x
            | Inr ts'' \<Rightarrow> Inr (Expr (if length ts'' = 1 then IDENT else o1) ts'')))"
    using k assms(2) first by (simp add: simplify_identity_def Let_def del: not_None_eq)
  show ?thesis
  proof (cases "(srm \<or> o1 \<noteq> MUL \<or> \<not> is_pos1 n \<or> \<not> contains (Expr o1 ts) T_REG)
               \<and> ((k = 0 \<and> can_destroy_int_left o1 n) \<or> (k \<noteq> 0 \<and> can_destroy_int_right o1 n))")
    case True
    have "simplify_delete (Expr o1 ts) n (k = 0) srm = Inr (None, take k ts @ drop (Suc k) ts)"
      by (subst simplify_delete_only_int[OF assms(1)]) (rule if_P[OF True])
    then have "simplify_identity (Expr o1 ts) k srm =
        Inr (Expr (if length (take k ts @ drop (Suc k) ts) = 1 then IDENT else o1)
               (take k ts @ drop (Suc k) ts))"
      unfolding si by (simp add: simplify_unary_def del: length_append length_take length_drop)
    then show ?thesis unfolding len by (simp only: if_P[OF True])
  next
    case False
    have sd: "simplify_delete (Expr o1 ts) n (k = 0) srm =
        (if is_constant o1 n then Inr (Some n, [INTN n]) else Inr (Some n, ts))"
      by (subst simplify_delete_only_int[OF assms(1)]) (rule if_not_P[OF False])
    have "simplify_identity (Expr o1 ts) k srm =
        (if is_constant o1 n then Inr (Expr IDENT [INTN n]) else Inr (Expr o1 ts))"
      unfolding si sd using is_constant_not_unary[of o1 n] assms(2)
      by (simp add: simplify_unary_def)
    then show ?thesis by (simp only: if_not_P[OF False])
  qed
qed

lemma simplify_identity_cases:
  assumes "only_int_at ts k n" and "1 < length ts"
    and go: "go = ((srm \<or> o1 \<noteq> MUL \<or> \<not> is_pos1 n \<or> \<not> contains (Expr o1 ts) T_REG)
               \<and> ((k = 0 \<and> can_destroy_int_left o1 n) \<or> (k \<noteq> 0 \<and> can_destroy_int_right o1 n)))"
  shows "go \<Longrightarrow> simplify_identity (Expr o1 ts) k srm =
           Inr (Expr (if length ts = 2 then IDENT else o1) (take k ts @ drop (Suc k) ts))"
    and "\<not> go \<Longrightarrow> is_constant o1 n \<Longrightarrow>
           simplify_identity (Expr o1 ts) k srm = Inr (Expr IDENT [INTN n])"
    and "\<not> go \<Longrightarrow> \<not> is_constant o1 n \<Longrightarrow>
           simplify_identity (Expr o1 ts) k srm = Inr (Expr o1 ts)"
  unfolding simplify_identity_unfold[OF assms(1,2)] go[symmetric] by simp_all

text \<open>
  C3: on a node that is not a SUB (negative normalization has turned every SUB into an
  ADD before a level is simplified), that has further terms and exactly one integer term
  \<open>n\<close>, \<open>simplify_identity\<close> does what the table of the claim says: it keeps only
  the integer, or deletes the integer (the operator becoming IDENT when one term is
  left), or changes nothing; and with \<open>simplify_reg_mul\<close> false a MUL whose integer is
  1 and which contains a register is left unchanged. On a lone integer it computes NOT,
  NEG and LNOT and makes the node an IDENT.
\<close>

theorem simplify_identity_table:
  assumes "only_int_at ts k n" and "1 < length ts" and "o1 \<noteq> SUB"
  shows "simplify_identity (Expr o1 ts) k srm =
           Inr (if \<not> srm \<and> o1 = MUL \<and> n = 1 \<and> contains (Expr o1 ts) T_REG then Expr o1 ts
                else case spec_identity o1 n (k = 0) of
                       DeleteInt \<Rightarrow>
                         Expr (if length ts = 2 then IDENT else o1) (take k ts @ drop (Suc k) ts)
                     | KeepOnlyInt \<Rightarrow> Expr IDENT [INTN n]
                     | NoChange \<Rightarrow> Expr o1 ts)
         \<and> simplify_identity (Expr o2 [INTN m]) 0 srm =
             Inr (Expr IDENT [INTN (if o2 = NOT_OP then NOT m else if o2 = NEG then - m
                                    else if o2 = LNOT then of_bool (m = 0) else m)])"
proof -
  have lone: "simplify_identity (Expr o2 [INTN m]) 0 srm =
             Inr (Expr IDENT [INTN (if o2 = NOT_OP then NOT m else if o2 = NEG then - m
                                    else if o2 = LNOT then of_bool (m = 0) else m)])"
    by (simp add: simplify_identity_def simplify_unary_def)
  let ?guard = "srm \<or> o1 \<noteq> MUL \<or> \<not> is_pos1 n \<or> \<not> contains (Expr o1 ts) T_REG"
  let ?destroy = "(k = 0 \<and> can_destroy_int_left o1 n) \<or> (k \<noteq> 0 \<and> can_destroy_int_right o1 n)"
  note cases = simplify_identity_cases[OF assms(1,2) refl, of srm o1]
  have del: "?destroy = (spec_identity o1 n (k = 0) = DeleteInt)"
    using spec_identity_delete[OF assms(3), of "k = 0" n] by simp
  have keep: "is_constant o1 n = (spec_identity o1 n (k = 0) = KeepOnlyInt)"
    by (rule spec_identity_keep)
  have "simplify_identity (Expr o1 ts) k srm =
           Inr (if \<not> srm \<and> o1 = MUL \<and> n = 1 \<and> contains (Expr o1 ts) T_REG then Expr o1 ts
                else case spec_identity o1 n (k = 0) of
                       DeleteInt \<Rightarrow>
                         Expr (if length ts = 2 then IDENT else o1) (take k ts @ drop (Suc k) ts)
                     | KeepOnlyInt \<Rightarrow> Expr IDENT [INTN n]
                     | NoChange \<Rightarrow> Expr o1 ts)"
  proof (cases "\<not> srm \<and> o1 = MUL \<and> n = 1 \<and> contains (Expr o1 ts) T_REG")
    case True
    then have "\<not> (?guard \<and> ?destroy)" by (auto simp: is_pos1_def)
    moreover have "\<not> is_constant o1 n" using True by (simp add: is_constant_def is_zero_def)
    ultimately have "simplify_identity (Expr o1 ts) k srm = Inr (Expr o1 ts)"
      by (rule cases(3))
    then show ?thesis by (simp only: if_P[OF True])
  next
    case False
    then have guard: "?guard" by (auto simp: is_pos1_def)
    show ?thesis
    proof (cases "spec_identity o1 n (k = 0)")
      case DeleteInt
      then have "?destroy" using del by simp
      with guard have "?guard \<and> ?destroy" by (rule conjI)
      then have "simplify_identity (Expr o1 ts) k srm =
          Inr (Expr (if length ts = 2 then IDENT else o1) (take k ts @ drop (Suc k) ts))"
        by (rule cases(1))
      then show ?thesis by (simp only: if_not_P[OF False] DeleteInt identity_action.case)
    next
      case KeepOnlyInt
      then have "\<not> ?destroy" "is_constant o1 n" using del keep by simp_all
      then have "\<not> (?guard \<and> ?destroy)" "is_constant o1 n" by blast+
      then have "simplify_identity (Expr o1 ts) k srm = Inr (Expr IDENT [INTN n])"
        by (rule cases(2))
      then show ?thesis by (simp only: if_not_P[OF False] KeepOnlyInt identity_action.case)
    next
      case NoChange
      then have "\<not> ?destroy" "\<not> is_constant o1 n" using del keep by simp_all
      then have "\<not> (?guard \<and> ?destroy)" "\<not> is_constant o1 n" by blast+
      then have "simplify_identity (Expr o1 ts) k srm = Inr (Expr o1 ts)"
        by (rule cases(3))
      then show ?thesis by (simp only: if_not_P[OF False] NoChange identity_action.case)
    qed
  qed
  then show ?thesis using lone by (rule conjI)
qed

theorem simplify_identity_table_witness:
  "simplify_identity (Expr MUL [INTN 1, SYM ''x'']) 0 True = Inr (Expr IDENT [SYM ''x''])
   \<and> simplify_identity (Expr MUL [INTN 1, REG 3]) 0 False = Inr (Expr MUL [INTN 1, REG 3])
   \<and> simplify_identity (Expr AND_OP [SYM ''x'', INTN 0, SYM ''y'']) 1 True = Inr (Expr IDENT [INTN 0])
   \<and> simplify_identity (Expr SHL [SYM ''x'', INTN 0]) 1 True = Inr (Expr IDENT [SYM ''x''])
   \<and> simplify_identity (Expr SHL [INTN 0, SYM ''x'']) 0 True = Inr (Expr SHL [INTN 0, SYM ''x''])
   \<and> simplify_identity (Expr ADD [SYM ''x'', INTN 0, SYM ''y'']) 1 True = Inr (Expr ADD [SYM ''x'', SYM ''y''])
   \<and> simplify_identity (Expr NOT_OP [INTN 5]) 0 True = Inr (Expr IDENT [INTN (- 6)])"
  using simplify_identity_table[where ts="[INTN 1, SYM ''x'']" and k=0 and n=1 and ?o1.0=MUL and srm=True and ?o2.0=NOT_OP and m=5]
        simplify_identity_table[where ts="[INTN 1, REG 3]" and k=0 and n=1 and ?o1.0=MUL and srm=False and ?o2.0=NOT_OP and m=5]
        simplify_identity_table[where ts="[SYM ''x'', INTN 0, SYM ''y'']" and k=1 and n=0 and ?o1.0=AND_OP and srm=True and ?o2.0=NOT_OP and m=5]
        simplify_identity_table[where ts="[SYM ''x'', INTN 0]" and k=1 and n=0 and ?o1.0=SHL and srm=True and ?o2.0=NOT_OP and m=5]
        simplify_identity_table[where ts="[INTN 0, SYM ''x'']" and k=0 and n=0 and ?o1.0=SHL and srm=True and ?o2.0=NOT_OP and m=5]
        simplify_identity_table[where ts="[SYM ''x'', INTN 0, SYM ''y'']" and k=1 and n=0 and ?o1.0=ADD and srm=True and ?o2.0=NOT_OP and m=5]
  by (simp add: only_int_at_def spec_identity_def contains_def is_type_def)


subsection \<open>Negative normalization\<close>


lemma xform_neg_helper_op:
  "xform_neg_helper e = Inr e' \<Longrightarrow> m_op e' \<noteq> SUB \<and> m_op e' \<noteq> NEG"
  by (cases e) (auto split: if_splits sum.splits list.splits exprterm.splits)

lemma xform_neg_op:
  "xform_neg e = Inr e' \<Longrightarrow> m_op e' \<noteq> SUB \<and> m_op e' \<noteq> NEG"
  using xform_neg_helper_op
  by (cases e) (auto split: if_splits sum.splits list.splits exprterm.splits simp del: xform_neg_helper.simps)




subsection \<open>Leveling\<close>

lemma good_term_simps [simp]:
  "good_term (EXPR c) = (leveled c \<and> m_op c \<noteq> IDENT)"
  "good_term NONE" "good_term (REG r)" "good_term (INTN n)" "good_term (SUBST k)"
  "good_term (FLOAT f)" "good_term (SYM s)" "good_term (LOC l)"
  by (simp_all add: good_term_def)

lemma leveled_terms_iff:
  "leveled_terms o1 ts =
     (\<forall>t \<in> set ts. good_term t \<and> (\<forall>c. t = EXPR c \<longrightarrow> \<not> (is_associative o1 \<and> m_op c = o1)))"
proof (induction ts)
  case Nil
  show ?case by simp
next
  case (Cons t ts)
  then show ?case by (cases t) auto
qed

lemma arity_ok_terms_iff:
  "arity_ok_terms ts = (\<forall>c. EXPR c \<in> set ts \<longrightarrow> arity_ok c)"
proof (induction ts)
  case Nil
  show ?case by simp
next
  case (Cons t ts)
  then show ?case by (cases t) auto
qed

lemma splice_ident_leaf: "get_expr t = None \<Longrightarrow> splice_ident t = Inr t"
  by (simp add: splice_ident.simps[of t])

lemma splice_ident_good: "good_term t \<Longrightarrow> splice_ident t = Inr t"
  by (cases t) (simp_all add: splice_ident.simps)

lemma splice_ident_leveled:
  assumes "leveled c" and "splice_ident (EXPR c) = Inr t'"
  shows "good_term t'"
proof (cases "m_op c = IDENT")
  case False
  then show ?thesis using assms by (auto simp: splice_ident.simps[of "EXPR c"])
next
  case True
  obtain o1 ts where c: "c = Expr o1 ts" by (cases c)
  have ne: "ts \<noteq> []" and lt: "leveled_terms o1 ts" using assms(1) c by simp_all
  then have "last ts \<in> set ts" by simp
  then have g: "good_term (last ts)" using lt by (simp add: leveled_terms_iff)
  have "splice_ident (EXPR c) = splice_ident (last ts)"
    using True c ne by (simp add: splice_ident.simps[of "EXPR c"])
  then show ?thesis using g assms(2) splice_ident_good by simp
qed

lemma fold_invI:
  assumes "\<And>t. t \<in> set done \<Longrightarrow> good_term t"
    and "\<And>k. it = Some k \<Longrightarrow> k < length done \<and> is_int (done ! k)"
    and "fc \<Longrightarrow> length (filter is_int done) = (case it of None \<Rightarrow> 0 | Some k \<Rightarrow> 1)"
    and "\<And>c. \<not> dl \<Longrightarrow> EXPR c \<in> set done \<Longrightarrow> m_op c \<noteq> o1"
  shows "fold_inv fc o1 done it dl"
  unfolding fold_inv_def using assms by (cases it) auto

lemma fold_invD:
  assumes "fold_inv fc o1 done it dl"
  shows "\<And>t. t \<in> set done \<Longrightarrow> good_term t"
    and "\<And>k. it = Some k \<Longrightarrow> k < length done \<and> is_int (done ! k)"
    and "fc \<Longrightarrow> length (filter is_int done) = (case it of None \<Rightarrow> 0 | Some k \<Rightarrow> 1)"
    and "\<And>c. \<not> dl \<Longrightarrow> EXPR c \<in> set done \<Longrightarrow> m_op c \<noteq> o1"
  using assms unfolding fold_inv_def by (cases it; simp; fail)+

lemma is_int_simps [simp]:
  "is_int (INTN n)" "\<not> is_int NONE" "\<not> is_int (EXPR c)" "\<not> is_int (REG r)"
  "\<not> is_int (SUBST k)" "\<not> is_int (FLOAT f)" "\<not> is_int (SYM s)" "\<not> is_int (LOC l)"
  by (simp_all add: is_int_def is_type_def)

lemma is_int_get_int: "is_int t = (get_int t \<noteq> None)"
  by (cases t) simp_all

lemma count_int_update:
  "k < length xs \<Longrightarrow> is_int (xs ! k) \<Longrightarrow>
   length (filter is_int (xs[k := INTN v])) = length (filter is_int xs)"
proof (induction xs arbitrary: k)
  case Nil
  then show ?case by simp
next
  case (Cons x xs)
  then show ?case by (cases k) auto
qed

lemma level_fold_inv:
  assumes "\<forall>t \<in> set ts. \<forall>t'. splice_ident t = Inr t' \<longrightarrow> good_term t'"
    and "fold_inv fc o1 done it dl"
    and "level_fold o1 fc ts done it dl = Inr (ts1, it1, dl1)"
  shows "fold_inv fc o1 ts1 it1 dl1 \<and> length ts1 = length done + length ts"
  using assms
proof (induction ts arbitrary: "done" it dl)
  case Nil
  then show ?case by simp
next
  case (Cons t rest)
  from Cons.prems(3) obtain t' where sp: "splice_ident t = Inr t'"
    by (auto split: sum.splits)
  then have good: "good_term t'" using Cons.prems(1) by simp
  define dl' where "dl' = (dl \<or> (case get_expr t' of Some e \<Rightarrow> m_op e = o1 | None \<Rightarrow> False))"
  have rest: "\<forall>t \<in> set rest. \<forall>t'. splice_ident t = Inr t' \<longrightarrow> good_term t'"
    using Cons.prems(1) by simp
  note inv = fold_invD[OF Cons.prems(2)]
  have dlc: "m_op c \<noteq> o1" if "\<not> dl'" "EXPR c \<in> set done \<or> EXPR c = t'" for c
  proof -
    from that(1) have nd: "\<not> dl" and nt: "\<And>e. t' = EXPR e \<Longrightarrow> m_op e \<noteq> o1"
      by (auto simp: dl'_def)
    from that(2) show ?thesis using inv(4)[OF nd] nt by auto
  qed
  show ?case
  proof (cases "if fc then get_int t' else None")
    case None
    then have notint: "fc \<Longrightarrow> \<not> is_int t'" by (auto simp: is_int_get_int split: if_splits)
    have step: "level_fold o1 fc rest (done @ [t']) it dl' = Inr (ts1, it1, dl1)"
      using Cons.prems(3) sp None by (simp add: dl'_def Let_def)
    have "fold_inv fc o1 (done @ [t']) it dl'"
    proof (rule fold_invI)
      show "good_term x" if "x \<in> set (done @ [t'])" for x using that inv(1) good by auto
      show "k < length (done @ [t']) \<and> is_int ((done @ [t']) ! k)" if "it = Some k" for k
        using inv(2)[OF that] by (simp add: nth_append)
      show "length (filter is_int (done @ [t'])) = (case it of None \<Rightarrow> 0 | Some k \<Rightarrow> 1)" if fc
        using inv(3)[OF that] notint[OF that] by simp
      show "m_op c \<noteq> o1" if "\<not> dl'" "EXPR c \<in> set (done @ [t'])" for c
        using dlc[OF that(1)] that(2) by auto
    qed
    from Cons.IH[OF rest this step] show ?thesis by simp
  next
    case (Some n)
    then have fc: fc and t': "t' = INTN n" by (cases t'; auto split: if_splits)+
    show ?thesis
    proof (cases it)
      case None
      have step: "level_fold o1 fc rest (done @ [t']) (Some (length done)) dl' = Inr (ts1, it1, dl1)"
        using Cons.prems(3) sp Some None by (simp add: dl'_def Let_def)
      have "fold_inv fc o1 (done @ [t']) (Some (length done)) dl'"
      proof (rule fold_invI)
        show "good_term x" if "x \<in> set (done @ [t'])" for x using that inv(1) good by auto
        show "k < length (done @ [t']) \<and> is_int ((done @ [t']) ! k)"
          if "Some (length done) = Some k" for k
          using that t' by auto
        show "length (filter is_int (done @ [t']))
                = (case Some (length done) of None \<Rightarrow> 0 | Some k \<Rightarrow> 1)"
          using inv(3)[OF fc] None t' by simp
        show "m_op c \<noteq> o1" if "\<not> dl'" "EXPR c \<in> set (done @ [t'])" for c
          using dlc[OF that(1)] that(2) by auto
      qed
      from Cons.IH[OF rest this step] show ?thesis by simp
    next
      case (Some k)
      note it = Some
      have k: "k < length done" "is_int (done ! k)" using inv(2)[OF it] by auto
      then obtain acc where acc: "get_int (done ! k) = Some acc"
        by (auto simp: is_int_get_int)
      have cond: "(if fc then get_int t' else None) = Some n" using fc t' by simp
      obtain v where v: "calc o1 acc n = Inr v"
        using Cons.prems(3) sp cond it acc
        by (auto simp: Let_def split: sum.splits)
      have step: "level_fold o1 fc rest (done[k := INTN v] @ [NONE]) it dl' = Inr (ts1, it1, dl1)"
        using Cons.prems(3) sp cond it acc v
        by (simp add: dl'_def Let_def)
      have sub: "set (done[k := INTN v]) \<subseteq> insert (INTN v) (set done)"
        by (rule set_update_subset_insert)
      have "fold_inv fc o1 (done[k := INTN v] @ [NONE]) it dl'"
      proof (rule fold_invI)
        show "good_term x" if "x \<in> set (done[k := INTN v] @ [NONE])" for x
          using that inv(1) sub by auto
        show "j < length (done[k := INTN v] @ [NONE])
                 \<and> is_int ((done[k := INTN v] @ [NONE]) ! j)" if "it = Some j" for j
          using that it k by (auto simp: nth_append)
        show "length (filter is_int (done[k := INTN v] @ [NONE]))
                = (case it of None \<Rightarrow> 0 | Some k \<Rightarrow> 1)"
          using inv(3)[OF fc] it k by (simp add: count_int_update)
        show "m_op c \<noteq> o1" if "\<not> dl'" "EXPR c \<in> set (done[k := INTN v] @ [NONE])" for c
        proof -
          from that(2) sub have "EXPR c \<in> set done" by auto
          then show ?thesis using dlc[OF that(1)] by simp
        qed
      qed
      from Cons.IH[OF rest this step] show ?thesis by simp
    qed
  qed
qed

lemma erase_first_int_props:
  assumes "\<exists>t \<in> set ts. is_int t"
  shows "set (erase_first_int ts) \<subseteq> set ts"
    and "Suc (length (erase_first_int ts)) = length ts"
    and "Suc (length (filter is_int (erase_first_int ts))) = length (filter is_int ts)"
proof -
  let ?P = "\<lambda>t. \<not> is_type t T_INT"
  have P: "?P = (\<lambda>t. \<not> is_int t)" by (simp add: is_int_def)
  from assms have "dropWhile ?P ts \<noteq> []" by (auto simp: is_int_def)
  then obtain x r where dw: "dropWhile ?P ts = x # r" by (cases "dropWhile ?P ts") auto
  then have x: "is_int x" using hd_dropWhile[of ?P ts] by (auto simp: is_int_def)
  have split: "ts = takeWhile ?P ts @ x # r" using dw takeWhile_dropWhile_id[of ?P ts] by simp
  have er: "erase_first_int ts = takeWhile ?P ts @ r" by (simp add: erase_first_int_def dw)
  show "set (erase_first_int ts) \<subseteq> set ts"
    by (subst (2) split) (auto simp: er)
  show "Suc (length (erase_first_int ts)) = length ts"
    by (subst (2) split) (simp add: er)
  have "filter is_int (takeWhile ?P ts) = []"
    unfolding P by (auto simp: filter_empty_conv dest: set_takeWhileD)
  then show "Suc (length (filter is_int (erase_first_int ts))) = length (filter is_int ts)"
    by (subst (2) split) (simp add: er x)
qed

lemma simplify_delete_shape:
  assumes "simplify_delete (Expr o1 ts) n b srm = Inr (intn', ts')" and "\<exists>t \<in> set ts. is_int t"
  shows "ts' = ts \<or> (ts' = erase_first_int ts) \<or> (\<exists>i \<in> set ts. is_int i \<and> ts' = [i])"
  using assms
  by (auto simp: simplify_delete_def Let_def is_int_def find_Some_iff
           split: if_splits option.splits)

lemma simplify_unary_shape:
  assumes "simplify_unary o1 b intn ts = Inr ts'"
  shows "ts' = ts \<or> (length ts = 1 \<and> (\<exists>v. ts' = [INTN v]))"
  using assms by (auto simp: simplify_unary_def split: option.splits if_splits sum.splits)

lemma simplify_identity_shape:
  assumes "simplify_identity (Expr o1 ts) k srm = Inr e'"
  shows "m_terms e' \<noteq> []"
    and "length (m_terms e') = 1 \<longrightarrow> m_op e' = IDENT"
    and "m_op e' = o1 \<or> m_op e' = IDENT"
    and "\<forall>t \<in> set (m_terms e'). t \<in> set ts \<or> is_int t"
    and "length (filter is_int ts) \<le> 1 \<longrightarrow> length (filter is_int (m_terms e')) \<le> 1"
    and "1 < length ts \<longrightarrow> Suc 0 < length (m_terms e') \<longrightarrow> m_op e' = o1"
proof -
  from assms have k: "k < length ts"
    by (auto simp: simplify_identity_def Let_def split: if_splits)
  then have ne: "ts \<noteq> []" by auto
  obtain intn' ts1 where step1:
    "(if length ts > 1 then
        (case get_int (ts ! k) of None \<Rightarrow> Inl UndefinedBehaviour
         | Some n \<Rightarrow> simplify_delete (Expr o1 ts) n (get_int (hd ts) \<noteq> None \<and> k = 0) srm)
      else Inr (get_int (ts ! k), ts)) = Inr (intn', ts1)"
    using assms k
    by (auto simp: simplify_identity_def Let_def simp del: not_None_eq split: sum.splits)
  obtain ts2 where step2: "simplify_unary o1 (get_int (hd ts) \<noteq> None \<and> k = 0) intn' ts1 = Inr ts2"
    and e': "e' = Expr (if length ts2 = 1 then IDENT else o1) ts2"
    using assms k step1
    by (auto simp: simplify_identity_def Let_def simp del: not_None_eq split: sum.splits)
  have s1: "ts1 = ts \<or> (1 < length ts \<and> (\<exists>t \<in> set ts. is_int t) \<and> ts1 = erase_first_int ts)
            \<or> (\<exists>i \<in> set ts. is_int i \<and> ts1 = [i])"
  proof (cases "length ts > 1")
    case False
    then show ?thesis using step1 by simp
  next
    case True
    then obtain n where n: "get_int (ts ! k) = Some n"
      and sd: "simplify_delete (Expr o1 ts) n (get_int (hd ts) \<noteq> None \<and> k = 0) srm = Inr (intn', ts1)"
      using step1 by (auto split: option.splits)
    have ex: "\<exists>t \<in> set ts. is_int t"
      using n k by (intro bexI[of _ "ts ! k"]) (auto simp: is_int_get_int)
    from simplify_delete_shape[OF sd ex] True ex show ?thesis by blast
  qed
  have s2: "ts2 = ts1 \<or> (length ts1 = 1 \<and> (\<exists>v. ts2 = [INTN v]))"
    using simplify_unary_shape[OF step2] .
  have ne1: "ts1 \<noteq> []"
  proof
    assume empty: "ts1 = []"
    with s1 ne have "1 < length ts" "\<exists>t \<in> set ts. is_int t" "erase_first_int ts = []" by auto
    then show False using erase_first_int_props(2)[of ts] by simp
  qed
  show "m_terms e' \<noteq> []" using s2 ne1 e' by auto
  show "length (m_terms e') = 1 \<longrightarrow> m_op e' = IDENT" using e' by simp
  show "m_op e' = o1 \<or> m_op e' = IDENT" using e' by simp
  have sub1: "\<forall>t \<in> set ts1. t \<in> set ts \<or> is_int t"
    using s1 erase_first_int_props(1)[of ts] by auto
  then show "\<forall>t \<in> set (m_terms e'). t \<in> set ts \<or> is_int t"
    using s2 e' by auto
  have c1: "length (filter is_int ts) \<le> 1 \<longrightarrow> length (filter is_int ts1) \<le> 1"
  proof
    assume le: "length (filter is_int ts) \<le> 1"
    from s1 consider "ts1 = ts" | "(\<exists>t \<in> set ts. is_int t)" "ts1 = erase_first_int ts"
      | "\<exists>i \<in> set ts. is_int i \<and> ts1 = [i]" by blast
    then show "length (filter is_int ts1) \<le> 1"
    proof cases
      case 1
      then show ?thesis using le by simp
    next
      case 2
      then show ?thesis using erase_first_int_props(3)[OF 2(1)] le by simp
    next
      case 3
      then show ?thesis by auto
    qed
  qed
  then show "length (filter is_int ts) \<le> 1 \<longrightarrow> length (filter is_int (m_terms e')) \<le> 1"
    using s2 e' by auto
  show "1 < length ts \<longrightarrow> Suc 0 < length (m_terms e') \<longrightarrow> m_op e' = o1"
    using e' by auto
qed

lemma bring_up_shape:
  assumes "bring_up e = Inr e2"
  shows "(e2 = e \<and> (m_op e = IDENT \<longrightarrow> m_terms e \<noteq> [] \<and> get_expr (hd (m_terms e)) = None))
         \<or> (m_op e = IDENT \<and> m_terms e \<noteq> [] \<and> hd (m_terms e) = EXPR e2)"
  using assms
  by (cases "m_terms e"; cases "hd (m_terms e)")
     (auto simp: bring_up_def split: if_splits option.splits)

lemma level_absorb_inv:
  assumes "level_absorb o1 fc us acc it = Inr (acc', it')" and "abs_inv acc it"
  shows "abs_inv acc' it' \<and> length acc \<le> length acc' \<and> (us \<noteq> [] \<longrightarrow> acc' \<noteq> [])
         \<and> (\<forall>t \<in> set acc'. t \<in> set acc \<or> t \<in> set us \<or> is_int t)"
  using assms
proof (induction us arbitrary: acc it)
  case Nil
  then show ?case by simp
next
  case (Cons u rest)
  show ?case
  proof (cases "if fc then get_int u else None")
    case None
    then have step: "level_absorb o1 fc rest (acc @ [u]) it = Inr (acc', it')"
      using Cons.prems(1) by simp
    have "abs_inv (acc @ [u]) it"
      using Cons.prems(2) by (auto simp: abs_inv_def nth_append split: option.splits)
    from Cons.IH[OF step this] show ?thesis by auto
  next
    case (Some n)
    show ?thesis
    proof (cases it)
      case None
      then have step: "level_absorb o1 fc rest (acc @ [u]) (Some (length acc)) = Inr (acc', it')"
        using Cons.prems(1) Some by simp
      have "is_int u" using Some by (auto simp: is_int_get_int split: if_splits)
      then have "abs_inv (acc @ [u]) (Some (length acc))" by (simp add: abs_inv_def)
      from Cons.IH[OF step this] show ?thesis by auto
    next
      case (Some k)
      note it = Some
      have k: "k < length acc" "is_int (acc ! k)"
        using Cons.prems(2) it by (simp_all add: abs_inv_def)
      then obtain a where a: "get_int (acc ! k) = Some a" by (auto simp: is_int_get_int)
      obtain v where v: "calc o1 a n = Inr v"
        using Cons.prems(1) \<open>(if fc then get_int u else None) = Some n\<close> it a
        by (auto split: sum.splits)
      have step: "level_absorb o1 fc rest (acc[k := INTN v]) it = Inr (acc', it')"
        using Cons.prems(1) \<open>(if fc then get_int u else None) = Some n\<close> it a v by simp
      have inv: "abs_inv (acc[k := INTN v]) it" using k it by (simp add: abs_inv_def)
      have sub: "set (acc[k := INTN v]) \<subseteq> insert (INTN v) (set acc)"
        by (rule set_update_subset_insert)
      have ne: "acc[k := INTN v] \<noteq> []" using k by auto
      from Cons.IH[OF step inv] sub ne show ?thesis by fastforce
    qed
  qed
qed

lemma copied_Cons: "copied o1 ts t \<Longrightarrow> copied o1 (x0 # ts) t"
  by (auto simp: copied_def)

lemma level_copy_inv:
  assumes "level_copy o1 fc ts acc it = Inr (acc', it')" and "abs_inv acc it"
    and "\<forall>p. EXPR p \<in> set ts \<longrightarrow> m_terms p \<noteq> []"
  shows "abs_inv acc' it' \<and> length acc \<le> length acc' \<and> (ts \<noteq> [] \<longrightarrow> acc' \<noteq> [])
         \<and> (\<forall>t \<in> set acc'. t \<in> set acc \<or> copied o1 ts t)"
  using assms
proof (induction ts arbitrary: acc it)
  case Nil
  then show ?case by simp
next
  case (Cons x0 rest)
  have rest: "\<forall>p. EXPR p \<in> set rest \<longrightarrow> m_terms p \<noteq> []" using Cons.prems(3) by simp
  show ?case
  proof (cases "case get_expr x0 of Some e \<Rightarrow> if m_op e = o1 then Some e else None | None \<Rightarrow> None")
    case None
    then have notabs: "\<forall>c. x0 = EXPR c \<longrightarrow> m_op c \<noteq> o1"
      by (cases x0) (auto split: if_splits)
    define it1 where "it1 = (if it = None \<and> is_type x0 T_INT then Some (length acc) else it)"
    have step: "level_copy o1 fc rest (acc @ [x0]) it1 = Inr (acc', it')"
      using Cons.prems(1) None by (simp add: it1_def)
    have inv: "abs_inv (acc @ [x0]) it1"
      using Cons.prems(2)
      by (auto simp: it1_def abs_inv_def is_int_def nth_append split: option.splits)
    have "copied o1 (x0 # rest) x0" using notabs by (simp add: copied_def)
    with Cons.IH[OF step inv rest] show ?thesis
      by (auto intro: copied_Cons)
  next
    case (Some e)
    then have x0: "x0 = EXPR e" and op: "m_op e = o1"
      by (cases x0; auto split: if_splits)+
    have ne: "m_terms e \<noteq> []" using Cons.prems(3) x0 by simp
    obtain acc1 it1 where ab: "level_absorb o1 fc (rev (m_terms e)) acc it = Inr (acc1, it1)"
      and step: "level_copy o1 fc rest acc1 it1 = Inr (acc', it')"
      using Cons.prems(1) Some by (auto split: sum.splits)
    from level_absorb_inv[OF ab Cons.prems(2)] ne
    have a1: "abs_inv acc1 it1" "length acc \<le> length acc1" "acc1 \<noteq> []"
      and sub: "\<forall>t \<in> set acc1. t \<in> set acc \<or> t \<in> set (m_terms e) \<or> is_int t"
      by auto
    have cp: "copied o1 (x0 # rest) t" if "t \<in> set (m_terms e)" for t
      using that x0 op by (auto simp: copied_def)
    have cp2: "copied o1 (x0 # rest) t" if "is_int t" for t
      using that by (simp add: copied_def)
    from Cons.IH[OF step a1(1) rest] a1(2,3) sub cp cp2 show ?thesis
      by (fastforce intro: copied_Cons)
  qed
qed

lemma is_int_good: "is_int t \<Longrightarrow> good_term t"
  by (cases t) simp_all

lemma leveled_nonempty: "leveled e \<Longrightarrow> m_terms e \<noteq> []"
  by (cases e) simp

lemma leveled_children:
  "leveled e \<Longrightarrow> t \<in> set (m_terms e) \<Longrightarrow>
   good_term t \<and> (\<forall>c. t = EXPR c \<longrightarrow> \<not> (is_associative (m_op e) \<and> m_op c = m_op e))"
  by (cases e) (simp add: leveled_terms_iff)

lemma level_fold_no_fold:
  "level_fold o1 False ts done None dl = Inr (ts1, it, dl1) \<Longrightarrow> it = None"
  by (induction ts arbitrary: "done" dl) (auto simp: Let_def split: sum.splits)

lemma count_filter_conj: "length (filter (\<lambda>x. Q x \<and> P x) xs) \<le> length (filter P xs)"
  by (induction xs) auto

lemma count_int_erase_tombstones:
  "length (filter is_int (take n xs @ filter (\<lambda>t. \<not> is_type t T_NONE) (drop n xs)))
     \<le> length (filter is_int xs)"
proof -
  have "length (filter is_int (filter (\<lambda>t. \<not> is_type t T_NONE) (drop n xs)))
          \<le> length (filter is_int (drop n xs))"
    by (simp add: count_filter_conj)
  moreover have "length (filter is_int xs)
    = length (filter is_int (take n xs)) + length (filter is_int (drop n xs))"
    by (metis append_take_drop_id filter_append length_append)
  ultimately show ?thesis by simp
qed

lemma level_first_props:
  assumes pre: "\<forall>t \<in> set ts. \<forall>t'. splice_ident t = Inr t' \<longrightarrow> good_term t'"
    and lf: "level_first fc True srm (Expr o1 ts) = Inr (e1, dl)"
    and ne: "ts \<noteq> []"
  shows "first_props fc o1 ts e1 dl"
proof -
  obtain ts1 it dl0 where fold0: "level_fold o1 fc ts [] None False = Inr (ts1, it, dl0)"
    using lf by (cases "level_fold o1 fc ts [] None False") (auto simp: level_first_def)
  have rest: "(case it of
                   None \<Rightarrow> Inr (Expr o1 ts1)
                 | Some k \<Rightarrow>
                     simplify_identity (Expr o1 (take (Suc k) ts1
                                @ filter (\<lambda>t. \<not> is_type t T_NONE) (drop (Suc k) ts1))) k srm)
              = Inr e1 \<and> dl0 = dl"
    using lf fold0 unfolding level_first_def
    by (simp add: Let_def split: sum.splits option.splits)
  have fold: "level_fold o1 fc ts [] None False = Inr (ts1, it, dl)"
    using fold0 rest by simp
  have start: "fold_inv fc o1 [] None False" by (rule fold_invI) simp_all
  from level_fold_inv[OF pre start fold]
  have inv: "fold_inv fc o1 ts1 it dl" and len: "length ts1 = length ts" by simp_all
  note d = fold_invD[OF inv]
  show ?thesis
  proof (cases it)
    case None
    then have e1: "e1 = Expr o1 ts1"
      using rest by simp
    have noint: "fc \<Longrightarrow> filter is_int ts1 = []" using d(3) None by simp
    have hdint: "fc \<Longrightarrow> \<not> is_int (hd ts1)"
    proof
      assume fc "is_int (hd ts1)"
      moreover have "hd ts1 \<in> set ts1" using len ne by (cases ts1) auto
      ultimately show False using noint by (auto simp: filter_empty_conv)
    qed
    have a1: "ts1 \<noteq> []" using len ne by auto
    show ?thesis
      unfolding first_props_def e1 m_terms.simps m_op.simps
      using a1 len d(1) d(4) noint hdint by simp
  next
    case (Some k)
    have fc: fc
    proof (rule ccontr)
      assume "\<not> fc"
      then have "it = None" using fold level_fold_no_fold[of o1 ts "[]" False ts1 it dl] by simp
      then show False using Some by simp
    qed
    define ts2 where "ts2 = take (Suc k) ts1 @ filter (\<lambda>t. \<not> is_type t T_NONE) (drop (Suc k) ts1)"
    have si: "simplify_identity (Expr o1 ts2) k srm = Inr e1"
      using rest Some by (simp add: ts2_def)
    note sh = simplify_identity_shape[OF si]
    have sub: "set ts2 \<subseteq> set ts1"
      unfolding ts2_def using set_take_subset[of "Suc k" ts1] set_drop_subset[of "Suc k" ts1]
      by auto
    have cnt: "length (filter is_int ts2) \<le> 1"
      unfolding ts2_def using count_int_erase_tombstones[of "Suc k" ts1] d(3)[OF fc] Some by simp
    have good: "good_term t" if "t \<in> set (m_terms e1)" for t
      using sh(4) that sub d(1) is_int_good by blast
    have nodl: "m_op c \<noteq> o1" if "\<not> dl" "EXPR c \<in> set (m_terms e1)" for c
    proof -
      from sh(4) that(2) have "EXPR c \<in> set ts2" by auto
      then show ?thesis using sub d(4)[OF that(1)] by auto
    qed
    show ?thesis
      unfolding first_props_def
      using sh(1,2,3,5) cnt good nodl by simp
  qed
qed

lemma leveledI:
  assumes "ts \<noteq> []"
    and "\<And>t. t \<in> set ts \<Longrightarrow> good_term t"
    and "\<And>c. EXPR c \<in> set ts \<Longrightarrow> is_associative o1 \<Longrightarrow> m_op c \<noteq> o1"
    and "length ts = 1 \<Longrightarrow> o1 = IDENT \<or> o1 = SEG \<or> ((o1 = NOT_OP \<or> o1 = LNOT) \<and> \<not> is_int (hd ts))"
    and "o1 = IDENT \<Longrightarrow> get_expr (hd ts) = None"
    and "\<not> nonnum o1 \<Longrightarrow> \<not> is_associative o1 \<Longrightarrow> length (filter is_int ts) \<le> 1"
  shows "leveled (Expr o1 ts)"
  using assms by (simp add: leveled_terms_iff) blast

lemma bring_up_leveled:
  assumes bu: "bring_up e = Inr e'"
    and good: "\<And>t. t \<in> set (m_terms e) \<Longrightarrow> good_term t"
    and rest: "m_op e = IDENT \<longrightarrow> get_expr (hd (m_terms e)) = None \<Longrightarrow> leveled e"
  shows "leveled e'"
proof -
  from bring_up_shape[OF bu] show ?thesis
  proof
    assume "e' = e \<and> (m_op e = IDENT \<longrightarrow> m_terms e \<noteq> [] \<and> get_expr (hd (m_terms e)) = None)"
    then show ?thesis using rest by simp
  next
    assume a: "m_op e = IDENT \<and> m_terms e \<noteq> [] \<and> hd (m_terms e) = EXPR e'"
    then have "EXPR e' \<in> set (m_terms e)" by (metis hd_in_set)
    from good[OF this] show ?thesis by simp
  qed
qed

lemma level_second_props:
  assumes ls: "level_second fc True srm (Expr o2 ts2) = Inr e'"
    and good: "\<And>t. t \<in> set ts2 \<Longrightarrow> good_term t"
    and ne: "ts2 \<noteq> []"
    and assoc: "is_associative o2"
  shows "leveled e'"
proof -
  obtain terms it2 where lc: "level_copy o2 fc (rev ts2) [] None = Inr (terms, it2)"
    using ls by (cases "level_copy o2 fc (rev ts2) [] None") (auto simp: level_second_def)
  have rest: "(case (case it2 of
                   Some k \<Rightarrow> simplify_identity (Expr o2 (rev terms)) ((length terms - 1) - k) srm
                 | None \<Rightarrow> (if length terms = 1 then Inr (Expr IDENT (rev terms))
                            else Inr (Expr o2 (rev terms))))
               of Inl x \<Rightarrow> Inl x | Inr e4 \<Rightarrow> bring_up e4) = Inr e'"
    using ls lc unfolding level_second_def
    by (cases it2; cases "length terms = Suc 0") (simp_all add: Let_def)
  then obtain e4 where e4: "(case it2 of
                   Some k \<Rightarrow> simplify_identity (Expr o2 (rev terms)) ((length terms - 1) - k) srm
                 | None \<Rightarrow> (if length terms = 1 then Inr (Expr IDENT (rev terms))
                            else Inr (Expr o2 (rev terms)))) = Inr e4"
    and bu: "bring_up e4 = Inr e'"
    by (auto split: sum.splits)
  have kids: "\<forall>p. EXPR p \<in> set (rev ts2) \<longrightarrow> m_terms p \<noteq> []"
  proof (intro allI impI)
    fix p assume "EXPR p \<in> set (rev ts2)"
    then have "EXPR p \<in> set ts2" by simp
    from good[OF this] have "good_term (EXPR p)" .
    then show "m_terms p \<noteq> []" by (simp add: leveled_nonempty)
  qed
  have start: "abs_inv [] None" by (simp add: abs_inv_def)
  from level_copy_inv[OF lc start kids]
  have tne: "terms \<noteq> []" and cop: "\<And>t. t \<in> set terms \<Longrightarrow> copied o2 (rev ts2) t"
    using ne by auto
  have G: "good_term t \<and> (\<forall>c. t = EXPR c \<longrightarrow> m_op c \<noteq> o2)" if "t \<in> set terms" for t
  proof -
    from cop[OF that] consider "is_int t"
      | "t \<in> set ts2" "\<forall>c. t = EXPR c \<longrightarrow> m_op c \<noteq> o2"
      | p where "EXPR p \<in> set ts2" "m_op p = o2" "t \<in> set (m_terms p)"
      unfolding copied_def by auto
    then show ?thesis
    proof cases
      case 1
      then show ?thesis using is_int_good by (cases t) auto
    next
      case 2
      then show ?thesis using good by simp
    next
      case 3
      from good[OF 3(1)] have "leveled p" by simp
      from leveled_children[OF this 3(3)] show ?thesis using 3(2) assoc by simp
    qed
  qed
  have e4_all: "m_terms e4 \<noteq> [] \<and> (length (m_terms e4) = 1 \<longrightarrow> m_op e4 = IDENT) \<and>
      (m_op e4 = o2 \<or> m_op e4 = IDENT) \<and> (\<forall>t \<in> set (m_terms e4). t \<in> set terms \<or> is_int t)"
  proof (cases it2)
    case None
    then show ?thesis
      using e4 tne by (auto split: if_splits)
  next
    case (Some k)
    then have si: "simplify_identity (Expr o2 (rev terms)) ((length terms - 1) - k) srm = Inr e4"
      using e4 by simp
    note sh = simplify_identity_shape[OF si]
    show ?thesis
      using sh(1,2,3,4) by simp
  qed
  then have e4_ne: "m_terms e4 \<noteq> []"
    and e4_one: "length (m_terms e4) = 1 \<longrightarrow> m_op e4 = IDENT"
    and e4_op: "m_op e4 = o2 \<or> m_op e4 = IDENT"
    and e4_sub: "\<forall>t \<in> set (m_terms e4). t \<in> set terms \<or> is_int t"
    by simp_all
  have G4: "good_term t \<and> (\<forall>c. t = EXPR c \<longrightarrow> m_op c \<noteq> o2)" if "t \<in> set (m_terms e4)" for t
  proof -
    from e4_sub that have "t \<in> set terms \<or> is_int t" by simp
    then show ?thesis
    proof
      assume "t \<in> set terms" then show ?thesis by (rule G)
    next
      assume "is_int t" then show ?thesis using is_int_good by (cases t) auto
    qed
  qed
  show ?thesis
  proof (rule bring_up_leveled[OF bu])
    fix t assume "t \<in> set (m_terms e4)"
    then show "good_term t" using G4 by simp
  next
    assume idn: "m_op e4 = IDENT \<longrightarrow> get_expr (hd (m_terms e4)) = None"
    obtain o4 ts4 where e4eq: "e4 = Expr o4 ts4" by (cases e4)
    show "leveled e4"
      unfolding e4eq
    proof (rule leveledI)
      show "ts4 \<noteq> []" using e4_ne e4eq by simp
      show "\<And>t. t \<in> set ts4 \<Longrightarrow> good_term t" using G4 e4eq by simp
      show "\<And>c. EXPR c \<in> set ts4 \<Longrightarrow> is_associative o4 \<Longrightarrow> m_op c \<noteq> o4"
        using G4 e4eq e4_op by (auto simp: is_associative_def)
      show "length ts4 = 1 \<Longrightarrow> o4 = IDENT \<or> o4 = SEG \<or> ((o4 = NOT_OP \<or> o4 = LNOT) \<and> \<not> is_int (hd ts4))"
        using e4_one e4eq by simp
      show "o4 = IDENT \<Longrightarrow> get_expr (hd ts4) = None" using idn e4eq by simp
      show "\<not> nonnum o4 \<Longrightarrow> \<not> is_associative o4 \<Longrightarrow> length (filter is_int ts4) \<le> 1"
        using e4_op e4eq assoc by (auto simp: nonnum_def)
    qed
  qed
qed

lemma level_op_leveled:
  assumes pre: "\<forall>t \<in> set ts. \<forall>t'. splice_ident t = Inr t' \<longrightarrow> good_term t'"
    and ne: "ts \<noteq> []"
    and arity: "length ts = 1 \<longrightarrow> is_unary o1"
    and noneg: "o1 \<noteq> NEG"
    and lo: "level_op True True srm (Expr o1 ts) = Inr e'"
  shows "leveled e'"
proof -
  define fc where "fc = (\<not> nonnum o1)"
  obtain e1 dl where lf: "level_first fc True srm (Expr o1 ts) = Inr (e1, dl)"
    using lo unfolding level_op_def fc_def
    by (cases "level_first (\<not> nonnum o1) True srm (Expr o1 ts)") (auto simp: Let_def)
  obtain e2 where bu: "bring_up e1 = Inr e2"
    using lo lf unfolding level_op_def fc_def
    by (cases "bring_up e1") (auto simp: Let_def)
  have fin: "(if \<not> dl \<or> \<not> is_associative (m_op e2) then Inr e2
              else level_second fc True srm e2) = Inr e'"
    using lo lf bu unfolding level_op_def fc_def by (simp add: Let_def)
  from level_first_props[OF pre lf ne]
  have p1: "m_terms e1 \<noteq> []"
    and p2: "\<And>t. t \<in> set (m_terms e1) \<Longrightarrow> good_term t"
    and p3: "m_op e1 = o1 \<or> m_op e1 = IDENT"
    and p4: "length (m_terms e1) = 1 \<Longrightarrow>
           m_op e1 = IDENT \<or> (length ts = 1 \<and> m_op e1 = o1 \<and> (fc \<longrightarrow> \<not> is_int (hd (m_terms e1))))"
    and p5: "fc \<Longrightarrow> length (filter is_int (m_terms e1)) \<le> 1"
    and p6: "\<And>c. \<not> dl \<Longrightarrow> EXPR c \<in> set (m_terms e1) \<Longrightarrow> m_op c \<noteq> o1"
    unfolding first_props_def by simp_all
  have e2_ne: "m_terms e2 \<noteq> []" and e2_good: "\<And>t. t \<in> set (m_terms e2) \<Longrightarrow> good_term t"
  proof -
    from bring_up_shape[OF bu]
    have "m_terms e2 \<noteq> [] \<and> (\<forall>t \<in> set (m_terms e2). good_term t)"
    proof
      assume "e2 = e1 \<and> (m_op e1 = IDENT \<longrightarrow> m_terms e1 \<noteq> [] \<and> get_expr (hd (m_terms e1)) = None)"
      then show ?thesis using p1 p2 by simp
    next
      assume a: "m_op e1 = IDENT \<and> m_terms e1 \<noteq> [] \<and> hd (m_terms e1) = EXPR e2"
      then have "EXPR e2 \<in> set (m_terms e1)" by (metis hd_in_set)
      from p2[OF this] have "leveled e2" by simp
      then show ?thesis using leveled_nonempty leveled_children by blast
    qed
    then show "m_terms e2 \<noteq> []" and "\<And>t. t \<in> set (m_terms e2) \<Longrightarrow> good_term t" by simp_all
  qed
  show ?thesis
  proof (cases "\<not> dl \<or> \<not> is_associative (m_op e2)")
    case False
    then have ls: "level_second fc True srm e2 = Inr e'" using fin by simp
    obtain o2 ts2 where e2: "e2 = Expr o2 ts2" by (cases e2)
    show ?thesis
    proof (rule level_second_props[OF ls[unfolded e2]])
      show "\<And>t. t \<in> set ts2 \<Longrightarrow> good_term t" using e2_good e2 by simp
      show "ts2 \<noteq> []" using e2_ne e2 by simp
      show "is_associative o2" using False e2 by simp
    qed
  next
    case True
    then have e': "e' = e2" using fin by simp
    show ?thesis unfolding e'
    proof (rule bring_up_leveled[OF bu p2])
      assume idn: "m_op e1 = IDENT \<longrightarrow> get_expr (hd (m_terms e1)) = None"
      obtain o' ts' where e1: "e1 = Expr o' ts'" by (cases e1)
      have same: "e2 = e1 \<or> m_op e1 = IDENT" using bring_up_shape[OF bu] by auto
      show "leveled e1" unfolding e1
      proof (rule leveledI)
        show "ts' \<noteq> []" using p1 e1 by simp
        show "\<And>t. t \<in> set ts' \<Longrightarrow> good_term t" using p2 e1 by simp
        show "m_op c \<noteq> o'" if "EXPR c \<in> set ts'" "is_associative o'" for c
        proof -
          have o': "o' = o1" using p3 e1 that(2) by (auto simp: is_associative_def)
          have "o' \<noteq> IDENT" using that(2) by (auto simp: is_associative_def)
          then have "e2 = e1" using same e1 by simp
          then have "\<not> dl" using True that(2) e1 by simp
          from p6[OF this] that(1) e1 o' show ?thesis by simp
        qed
        show "o' = IDENT \<or> o' = SEG \<or> ((o' = NOT_OP \<or> o' = LNOT) \<and> \<not> is_int (hd ts'))"
          if "length ts' = 1"
        proof -
          from p4 that e1 consider "o' = IDENT"
            | "length ts = 1" "o' = o1" "fc \<longrightarrow> \<not> is_int (hd ts')" by auto
          then show ?thesis
          proof cases
            case 1 then show ?thesis by simp
          next
            case 2
            then have "is_unary o1" using arity by simp
            then show ?thesis using 2 noneg by (auto simp: is_unary_def fc_def nonnum_def)
          qed
        qed
        show "o' = IDENT \<Longrightarrow> get_expr (hd ts') = None" using idn e1 by simp
        show "length (filter is_int ts') \<le> 1" if "\<not> nonnum o'" "\<not> is_associative o'"
        proof -
          have "o' = o1" using p3 e1 that(1) by (auto simp: nonnum_def)
          then have fc using that(1) fc_def by simp
          from p5[OF this] e1 show ?thesis by simp
        qed
      qed
    qed
  qed
qed

lemma arity_ok_neg_term: "arity_ok_terms [t] \<Longrightarrow> arity_ok_terms [xform_neg_term t]"
  by (cases t) (simp_all add: xform_neg_term_def)

lemma arity_ok_terms_Cons:
  "arity_ok_terms (t # ts) = ((\<forall>c. t = EXPR c \<longrightarrow> arity_ok c) \<and> arity_ok_terms ts)"
  by (cases t) simp_all

lemma arity_ok_terms_append:
  "arity_ok_terms (xs @ ys) = (arity_ok_terms xs \<and> arity_ok_terms ys)"
  by (auto simp: arity_ok_terms_iff)

lemma xform_neg_helper_arity:
  "arity_ok e \<Longrightarrow> xform_neg_helper e = Inr e' \<Longrightarrow> arity_ok e'"
  "arity_ok_terms ts \<Longrightarrow> xform_neg_helper_terms ts = Inr ts' \<Longrightarrow>
     arity_ok_terms ts' \<and> length ts' = length ts"
proof (induction e and ts arbitrary: e' and ts' rule: xform_neg_helper_xform_neg_helper_terms.induct)
  case (1 o1 ts)
  note IH = "1.IH" and prems = "1.prems"
  show ?case
  proof (cases "o1 = ADD")
    case True
    then show ?thesis using IH(1) prems
      by (auto split: sum.splits)
  next
    case notadd: False
    show ?thesis
    proof (cases "o1 = SUB")
      case True
      then show ?thesis using IH(2) prems notadd
        by (fastforce simp: xform_neg_term_def arity_ok_terms_Cons is_unary_def
              split: sum.splits list.splits exprterm.splits)
    next
      case notsub: False
      show ?thesis
      proof (cases "o1 = NEG")
        case True
        then show ?thesis using prems by (auto simp: is_unary_def)
      next
        case notneg: False
        show ?thesis
        proof (cases "o1 = IDENT")
          case True
          then show ?thesis using IH(3) prems
            by (fastforce simp: arity_ok_terms_Cons arity_ok_terms_append is_unary_def
                  split: sum.splits list.splits exprterm.splits if_splits)
        next
          case False
          then show ?thesis using prems notadd notsub notneg by auto
        qed
      qed
    qed
  qed
next
  case 2
  then show ?case by simp
next
  case (3 sube rest)
  then show ?case by (fastforce split: sum.splits)
qed (fastforce simp: xform_neg_term_def split: sum.splits)+

lemma xform_neg_arity:
  assumes "arity_ok e" and "xform_neg e = Inr e1"
  shows "arity_ok e1"
proof -
  obtain o1 ts where e: "e = Expr o1 ts" by (cases e)
  show ?thesis
  proof (cases "o1 = NEG")
    case True
    then have h: "xform_neg_helper (Expr IDENT ts) = Inr e1" using assms(2) e by simp
    have "arity_ok (Expr IDENT ts)" using assms(1) e by (simp add: is_unary_def)
    from xform_neg_helper_arity(1)[OF this h] show ?thesis .
  next
    case notneg: False
    show ?thesis
    proof (cases "o1 = SUB")
      case False
      then have "e1 = e" using assms(2) e notneg by simp
      then show ?thesis using assms(1) by simp
    next
      case True
      show ?thesis
      proof (cases ts)
        case Nil
        then show ?thesis using assms e True by simp
      next
        case (Cons a r)
        show ?thesis
        proof (cases r)
          case Nil
          then show ?thesis using assms e True Cons by simp
        next
          case (Cons rhs rest)
          note r = this
          show ?thesis
          proof (cases "get_expr rhs")
            case None
            then have "e1 = Expr ADD (a # xform_neg_term rhs # rest)"
              using assms(2) e True \<open>ts = a # r\<close> r by (cases rhs) auto
            then show ?thesis using assms(1) e \<open>ts = a # r\<close> r
              by (simp add: arity_ok_terms_Cons xform_neg_term_def)
          next
            case (Some sube)
            then have rhs: "rhs = EXPR sube" by (cases rhs) auto
            then obtain sube' where h: "xform_neg_helper sube = Inr sube'"
              and e1: "e1 = Expr ADD (a # EXPR sube' # rest)"
              using assms(2) e True \<open>ts = a # r\<close> r by (auto split: sum.splits)
            have "arity_ok sube" using assms(1) e \<open>ts = a # r\<close> r rhs
              by (simp add: arity_ok_terms_Cons)
            from xform_neg_helper_arity(1)[OF this h] show ?thesis
              using e1 assms(1) e \<open>ts = a # r\<close> r by (simp add: arity_ok_terms_Cons)
          qed
        qed
      qed
    qed
  qed
qed

lemma sequence_err_map:
  "sequence_err (map f xs) = Inr ys \<Longrightarrow> list_all2 (\<lambda>x y. f x = Inr y) xs ys"
  by (induction xs arbitrary: ys) (auto split: sum.splits)

lemma spliceable_good:
  assumes "spliceable t" and "splice_ident t = Inr t'"
  shows "good_term t'"
proof (cases "get_expr t")
  case None
  then have "t' = t" using assms(2) splice_ident_leaf[of t] by simp
  then show ?thesis using None by (simp add: good_term_def)
next
  case (Some c)
  then have "t = EXPR c" by (cases t) auto
  then show ?thesis using assms splice_ident_leveled[of c t'] by (auto simp: spliceable_def)
qed

lemma seg_of_segoff_pre:
  assumes sg: "seg_of_segoff (Expr o1 ts) = Inr e2"
    and ne: "ts \<noteq> []"
    and arity: "length ts = 1 \<longrightarrow> is_unary o1"
    and noneg: "o1 \<noteq> NEG"
    and each: "\<forall>t \<in> set ts. spliceable t"
  shows "\<exists>o2 ts2. e2 = Expr o2 ts2 \<and> ts2 \<noteq> [] \<and> (length ts2 = 1 \<longrightarrow> is_unary o2) \<and> o2 \<noteq> NEG
           \<and> (\<forall>t \<in> set ts2. \<forall>t'. splice_ident t = Inr t' \<longrightarrow> good_term t')"
proof -
  obtain t rest where ts: "ts = t # rest" using ne by (cases ts) auto
  have keep: ?thesis if "e2 = Expr o1 ts"
    using that ne arity noneg each spliceable_good by blast
  show ?thesis
  proof (cases "o1 = SEG \<and> (\<exists>sube. t = EXPR sube \<and> m_op sube = SEGOFF)")
    case False
    then have "e2 = Expr o1 ts" using sg ts
      by (cases t) (auto simp: seg_of_segoff_def split: if_splits)
    then show ?thesis by (rule keep)
  next
    case True
    then obtain sube where t: "t = EXPR sube" and so: "m_op sube = SEGOFF" and o1: "o1 = SEG"
      by auto
    have e2: "e2 = Expr IDENT (EXPR (Expr IDENT (butlast (m_terms sube))) # rest)"
      using sg ts t so o1 by (auto simp: seg_of_segoff_def split: if_splits)
    have "spliceable t" using each ts by simp
    then have lv: "leveled sube" using t by (simp add: spliceable_def)
    obtain os us where sube: "sube = Expr os us" by (cases sube)
    have us: "us \<noteq> []" "length us \<noteq> 1" using lv so sube by auto
    then have bl: "butlast us \<noteq> []" by (cases us; cases "tl us") auto
    then have "last (butlast us) \<in> set us" using in_set_butlastD last_in_set by metis
    from leveled_children[OF lv] this have g: "good_term (last (butlast us))"
      using sube by simp
    have sp: "splice_ident (EXPR (Expr IDENT (butlast us))) = Inr (last (butlast us))"
      using bl splice_ident_good[OF g]
      by (simp add: splice_ident.simps[of "EXPR (Expr IDENT (butlast us))"])
    have "\<forall>x \<in> set (EXPR (Expr IDENT (butlast us)) # rest).
            \<forall>t'. splice_ident x = Inr t' \<longrightarrow> good_term t'"
    proof (intro ballI allI impI)
      fix x t' assume x: "x \<in> set (EXPR (Expr IDENT (butlast us)) # rest)"
        and s: "splice_ident x = Inr t'"
      show "good_term t'"
      proof (cases "x = EXPR (Expr IDENT (butlast us))")
        case True
        then show ?thesis using sp s g by simp
      next
        case False
        then have "x \<in> set ts" using x ts by simp
        then show ?thesis using each s spliceable_good by blast
      qed
    qed
    then show ?thesis using e2 sube by (simp add: is_unary_def)
  qed
qed

lemma level_tree_unfold:
  "level_tree True True srm None e =
     (case xform_neg e of
        Inl x \<Rightarrow> Inl x
      | Inr e1 \<Rightarrow>
          (case sequence_err
                  (map (\<lambda>i. case get_expr i of
                               None \<Rightarrow> Inr i
                             | Some sube \<Rightarrow>
                                 (case level_tree True True srm None sube of
                                    Inl x \<Rightarrow> Inl x
                                  | Inr sube' \<Rightarrow> Inr (EXPR sube')))
                       (m_terms e1))
           of
             Inl x \<Rightarrow> Inl x
           | Inr ts \<Rightarrow>
               (case seg_of_segoff (Expr (m_op e1) ts) of
                  Inl x \<Rightarrow> Inl x
                | Inr e2 \<Rightarrow> level_op True True srm e2)))"
  by (subst level_tree.simps) (simp del: level_tree.simps split: sum.splits)

text \<open>
  C1, as the claim states it, fails on two kinds of node that \<open>level_tree\<close> leaves
  alone. A unary NOT of a symbol keeps its single term and its operator, so a node with
  exactly one term need not be an IDENT. And constant folding is off in a node with a
  non-numeric operator (SEG, WRT, SEGOFF, IDENT, COND), so \<open>1:2\<close> keeps its two integer
  terms.
\<close>

theorem level_tree_counterexample:
  "level_tree True True True None (Expr NOT_OP [SYM ''x'']) = Inr (Expr NOT_OP [SYM ''x''])
   \<and> length (m_terms (Expr NOT_OP [SYM ''x''])) = 1 \<and> m_op (Expr NOT_OP [SYM ''x'']) \<noteq> IDENT
   \<and> level_tree True True True None (Expr SEGOFF [INTN 1, INTN 2]) = Inr (Expr SEGOFF [INTN 1, INTN 2])
   \<and> length (filter is_int (m_terms (Expr SEGOFF [INTN 1, INTN 2]))) = 2"
  by code_simp

text \<open>
  C1, amended: on a tree whose nodes all have a term, and a unary operator where they
  have a single term, a \<open>level_tree\<close> with constant folding and identity simplification
  that returns a tree returns a leveled one. In it no sub-expression has the associative
  operator of its parent, no sub-expression is an IDENT and the first term of an IDENT
  root is no expression, a node with exactly one term is an IDENT, a SEG, or a NOT or
  LNOT of a term that is no integer, and a node with a numeric operator that is not
  associative holds at most one integer term. The number of integer terms of an
  associative node is left open: the second pass of \<open>level_op\<close> can leave two.
\<close>

theorem level_tree_invariants:
  assumes "arity_ok e" and "level_tree True True srm None e = Inr e'"
  shows "leveled e'"
  using assms
proof (induction "neg_weight e" arbitrary: e e' rule: less_induct)
  case less
  define f where "f = (\<lambda>i. case get_expr i of
                               None \<Rightarrow> Inr i
                             | Some sube \<Rightarrow>
                                 (case level_tree True True srm None sube of
                                    Inl x \<Rightarrow> Inl x
                                  | Inr sube' \<Rightarrow> Inr (EXPR sube')))"
  have unf: "(case xform_neg e of
        Inl x \<Rightarrow> Inl x
      | Inr e1 \<Rightarrow>
          (case sequence_err (map f (m_terms e1)) of
             Inl x \<Rightarrow> Inl x
           | Inr ts \<Rightarrow>
               (case seg_of_segoff (Expr (m_op e1) ts) of
                  Inl x \<Rightarrow> Inl x
                | Inr e2 \<Rightarrow> level_op True True srm e2))) = Inr e'"
    using less.prems(2) unfolding f_def level_tree_unfold[symmetric] .
  obtain e1 where xn: "xform_neg e = Inr e1"
    using unf by (cases "xform_neg e") simp_all
  obtain ts where sq: "sequence_err (map f (m_terms e1)) = Inr ts"
    using unf xn by (cases "sequence_err (map f (m_terms e1))") simp_all
  obtain e2 where sg: "seg_of_segoff (Expr (m_op e1) ts) = Inr e2"
    using unf xn sq by (cases "seg_of_segoff (Expr (m_op e1) ts)") simp_all
  have lo: "level_op True True srm e2 = Inr e'"
    using unf xn sq sg by simp
  have ar1: "arity_ok e1" using xform_neg_arity[OF less.prems(1) xn] .
  have op1: "m_op e1 \<noteq> NEG" using xform_neg_op[OF xn] by simp
  obtain o1 ts1 where e1: "e1 = Expr o1 ts1" by (cases e1)
  have ts1: "ts1 \<noteq> []" "length ts1 = 1 \<longrightarrow> is_unary o1"
    and kids: "\<And>c. EXPR c \<in> set ts1 \<Longrightarrow> arity_ok c"
    using ar1 e1 by (simp_all add: arity_ok_terms_iff)
  have la: "list_all2 (\<lambda>x y. f x = Inr y) ts1 ts"
    using sequence_err_map[OF sq] e1 by simp
  then have len: "length ts = length ts1" by (simp add: list_all2_lengthD)
  have each: "\<forall>y \<in> set ts. spliceable y"
  proof
    fix y assume "y \<in> set ts"
    then obtain j where j: "j < length ts" and y: "y = ts ! j" by (auto simp: in_set_conv_nth)
    define x where "x = ts1 ! j"
    have fx: "f x = Inr y" using list_all2_nthD2[OF la j] y x_def by simp
    have xin: "x \<in> set ts1" using j len x_def by simp
    show "spliceable y"
    proof (cases "get_expr x")
      case None
      then have "y = x" using fx by (simp add: f_def)
      then show ?thesis using None by (simp add: spliceable_def)
    next
      case (Some c)
      then have x: "x = EXPR c" by (cases x) auto
      obtain c' where lt: "level_tree True True srm None c = Inr c'" and y': "y = EXPR c'"
        using fx Some unfolding f_def
        by (cases "level_tree True True srm None c") simp_all
      have "EXPR c \<in> set (m_terms e1)" using xin x e1 by simp
      from neg_weight_child[OF xn this] have "neg_weight c < neg_weight e" .
      moreover have "arity_ok c" using kids xin x by simp
      ultimately have "leveled c'" using less.hyps lt by blast
      then show ?thesis using y' by (simp add: spliceable_def)
    qed
  qed
  have ne: "ts \<noteq> []" using ts1(1) len by auto
  have ar: "length ts = 1 \<longrightarrow> is_unary o1" using ts1(2) len by simp
  have sg': "seg_of_segoff (Expr o1 ts) = Inr e2" using sg e1 by simp
  have o1: "o1 \<noteq> NEG" using op1 e1 by simp
  from seg_of_segoff_pre[OF sg' ne ar o1 each]
  obtain o2 ts2 where e2: "e2 = Expr o2 ts2" and n2: "ts2 \<noteq> []"
    and a2: "length ts2 = 1 \<longrightarrow> is_unary o2" and g2: "o2 \<noteq> NEG"
    and p2: "\<forall>t \<in> set ts2. \<forall>t'. splice_ident t = Inr t' \<longrightarrow> good_term t'"
    by blast
  show ?case using level_op_leveled[OF p2 n2 a2 g2 lo[unfolded e2]] .
qed

theorem level_tree_invariants_witness:
  "arity_ok (Expr SUB [EXPR (Expr MUL [INTN 2, EXPR (Expr ADD [SYM ''x'', INTN 0])]),
                       EXPR (Expr SHL [INTN 1, INTN 4]),
                       EXPR (Expr NEG [EXPR (Expr ADD [SYM ''y'', EXPR (Expr ADD [REG 1, SYM ''z''])])])])
   \<and> level_tree True True True None
         (Expr SUB [EXPR (Expr MUL [INTN 2, EXPR (Expr ADD [SYM ''x'', INTN 0])]),
                    EXPR (Expr SHL [INTN 1, INTN 4]),
                    EXPR (Expr NEG [EXPR (Expr ADD [SYM ''y'', EXPR (Expr ADD [REG 1, SYM ''z''])])])])
       = Inr (Expr ADD [EXPR (Expr MUL [INTN 2, SYM ''x'']), INTN (- 16),
                        EXPR (Expr MUL [EXPR (Expr ADD [SYM ''y'', REG 1, SYM ''z'']), INTN (- 1)])])
   \<and> leveled (Expr ADD [EXPR (Expr MUL [INTN 2, SYM ''x'']), INTN (- 16),
                        EXPR (Expr MUL [EXPR (Expr ADD [SYM ''y'', REG 1, SYM ''z'']), INTN (- 1)])])"
proof -
  have a: "arity_ok (Expr SUB [EXPR (Expr MUL [INTN 2, EXPR (Expr ADD [SYM ''x'', INTN 0])]),
                       EXPR (Expr SHL [INTN 1, INTN 4]),
                       EXPR (Expr NEG [EXPR (Expr ADD [SYM ''y'', EXPR (Expr ADD [REG 1, SYM ''z''])])])])"
    by (simp add: is_unary_def)
  have b: "level_tree True True True None
         (Expr SUB [EXPR (Expr MUL [INTN 2, EXPR (Expr ADD [SYM ''x'', INTN 0])]),
                    EXPR (Expr SHL [INTN 1, INTN 4]),
                    EXPR (Expr NEG [EXPR (Expr ADD [SYM ''y'', EXPR (Expr ADD [REG 1, SYM ''z''])])])])
       = Inr (Expr ADD [EXPR (Expr MUL [INTN 2, SYM ''x'']), INTN (- 16),
                        EXPR (Expr MUL [EXPR (Expr ADD [SYM ''y'', REG 1, SYM ''z'']), INTN (- 1)])])"
    by code_simp
  from level_tree_invariants [OF a b] a b show ?thesis by blast
qed


text \<open>
  C4: \<open>level_tree\<close> is not idempotent on \<open>5 + (x + 3)\<close>. The second pass of
  \<open>level_op\<close> folds the integers it moves up into one, but an integer term of the
  node itself that stands left of the absorbed sub-expression is copied beside it: the
  first application yields \<open>ADD(5, x, 3)\<close>, the second folds it to \<open>ADD(8, x)\<close>.
\<close>

theorem level_tree_not_idempotent:
  "level_tree True True True None (Expr ADD [INTN 5, EXPR (Expr ADD [SYM ''x'', INTN 3])])
     = Inr (Expr ADD [INTN 5, SYM ''x'', INTN 3])
   \<and> level_tree True True True None (Expr ADD [INTN 5, SYM ''x'', INTN 3])
     = Inr (Expr ADD [INTN 8, SYM ''x''])"
  by code_simp


subsection \<open>ParseSymbol and DefineLabel\<close>

lemma begins_with_chars:
  "begins_with s ''.'' = (char_at s 0 = CHR ''.'')"
  "begins_with s ''..'' = (char_at s 0 = CHR ''.'' \<and> char_at s 1 = CHR ''.'')"
  "begins_with s ''..@'' = (char_at s 0 = CHR ''.'' \<and> char_at s 1 = CHR ''.'' \<and> char_at s 2 = CHR ''@'')"
    apply (cases s; simp add: begins_with_def char_at_def)
   apply (cases s; cases "tl s"; simp add: begins_with_def char_at_def)
  apply (cases s; cases "tl s"; cases "tl (tl s)"; simp add: begins_with_def char_at_def)
  done

text \<open>
  C7, as the claim states it, fails on the shortest names: the name \<open>..@\<close> itself is
  not looked up verbatim but as the special symbol \<open>@\<close> (here: not found, null),
  the name \<open>..\<close> is a local label and the name \<open>.\<close> an ordinary symbol.
\<close>

theorem parse_symbol_counterexample:
  "fst (ParseSymbol example_parser \<lparr>ii_name = ''..@'', ii_symbol = None\<rparr>) = None
   \<and> getSymbol (m_object example_parser) ''..@'' = Some (TableSymbol ''..@'')
   \<and> fst (ParseSymbol example_parser \<lparr>ii_name = ''..'', ii_symbol = None\<rparr>)
       = Some (TableSymbol ''main..'')
   \<and> fst (ParseSymbol example_parser \<lparr>ii_name = ''.'', ii_symbol = None\<rparr>)
       = Some (TableSymbol ''.'')"
  by (simp add: ParseSymbol_def example_parser_def example_object_def char_at_def Let_def)

text \<open>
  C7 (amended): for an identifier without a cached symbol and without a leading \<open>$\<close>,
  a name of more than three characters that begins with \<open>..@\<close> is looked up
  verbatim by \<open>getSymbol\<close>; any other name of more than two characters that begins
  with \<open>..\<close> is looked up by \<open>FindSpecialSymbol\<close> without its first two
  characters; any other name of more than one character that begins with \<open>.\<close> is
  a local label, looked up under the base of the local labels followed by the name, with
  the warning \<open>warn_no_nonlocal\<close> when the base is empty, and never cached; every
  other name is looked up verbatim. \<open>DefineLabel\<close> of a non-local label makes the
  name of its symbol the base, which the local labels parsed afterwards use; of a local
  label it leaves the base.
\<close>

theorem parse_symbol_resolution:
  assumes "ii_symbol ii = None" and "\<not> begins_with (ii_name ii) ''$''"
  shows "(3 < length (ii_name ii) \<and> begins_with (ii_name ii) ''..@''
            \<longrightarrow> ParseSymbol p ii
                = (getSymbol (m_object p) (ii_name ii), False,
                   ii\<lparr>ii_symbol := getSymbol (m_object p) (ii_name ii)\<rparr>, p))
         \<and> (2 < length (ii_name ii) \<and> begins_with (ii_name ii) ''..''
              \<and> \<not> (3 < length (ii_name ii) \<and> begins_with (ii_name ii) ''..@'')
            \<longrightarrow> ParseSymbol p ii
                = (FindSpecialSymbol (m_object p) (drop 2 (ii_name ii)), False,
                   ii\<lparr>ii_symbol := FindSpecialSymbol (m_object p) (drop 2 (ii_name ii))\<rparr>, p))
         \<and> (1 < length (ii_name ii) \<and> begins_with (ii_name ii) ''.''
              \<and> \<not> (2 < length (ii_name ii) \<and> begins_with (ii_name ii) ''..'')
            \<longrightarrow> ParseSymbol p ii
                = (getSymbol (m_object p) (m_locallabel_base p @ ii_name ii), True, ii,
                   if m_locallabel_base p = [] then p\<lparr>diags := diags p @ [warn_no_nonlocal]\<rparr>
                   else p))
         \<and> (\<not> (1 < length (ii_name ii) \<and> begins_with (ii_name ii) ''.'')
            \<longrightarrow> ParseSymbol p ii
                = (getSymbol (m_object p) (ii_name ii), False,
                   ii\<lparr>ii_symbol := getSymbol (m_object p) (ii_name ii)\<rparr>, p))
         \<and> m_locallabel_base (DefineLabel p symb False) = getName symb
         \<and> m_locallabel_base (DefineLabel p symb True) = m_locallabel_base p
         \<and> (1 < length (ii_name ii) \<and> begins_with (ii_name ii) ''.''
              \<and> \<not> (2 < length (ii_name ii) \<and> begins_with (ii_name ii) ''..'')
            \<longrightarrow> fst (ParseSymbol (DefineLabel p symb False) ii)
                = getSymbol (m_object p) (getName symb @ ii_name ii))"
proof -
  have nodollar: "char_at (ii_name ii) 0 \<noteq> CHR ''$''"
    using assms(2) by (cases "ii_name ii") (auto simp: begins_with_def char_at_def)
  have obj: "m_object (DefineLabel p symb False) = m_object p"
    by (simp add: DefineLabel_def Let_def)
  have base: "m_locallabel_base (DefineLabel p symb False) = getName symb"
    "m_locallabel_base (DefineLabel p symb True) = m_locallabel_base p"
    by (simp_all add: DefineLabel_def Let_def)
  have ps: "ParseSymbol q ii =
     (if 1 < length (ii_name ii) \<and> begins_with (ii_name ii) ''.'' then
        (if 2 < length (ii_name ii) \<and> begins_with (ii_name ii) ''..'' then
           (if 3 < length (ii_name ii) \<and> begins_with (ii_name ii) ''..@'' then
              (getSymbol (m_object q) (ii_name ii), False,
               ii\<lparr>ii_symbol := getSymbol (m_object q) (ii_name ii)\<rparr>, q)
            else
              (FindSpecialSymbol (m_object q) (drop 2 (ii_name ii)), False,
               ii\<lparr>ii_symbol := FindSpecialSymbol (m_object q) (drop 2 (ii_name ii))\<rparr>, q))
         else
           (getSymbol (m_object q) (m_locallabel_base q @ ii_name ii), True, ii,
            if m_locallabel_base q = [] then q\<lparr>diags := diags q @ [warn_no_nonlocal]\<rparr> else q))
      else
        (getSymbol (m_object q) (ii_name ii), False,
         ii\<lparr>ii_symbol := getSymbol (m_object q) (ii_name ii)\<rparr>, q))" for q
    using assms(1) nodollar by (auto simp: ParseSymbol_def Let_def begins_with_chars)
  show ?thesis
    unfolding ps obj base by (auto simp: begins_with_chars)
qed


theorem parse_symbol_resolution_witness:
  "ParseSymbol example_parser \<lparr>ii_name = ''..@tmp'', ii_symbol = None\<rparr>
     = (Some (TableSymbol ''..@tmp''), False,
        \<lparr>ii_name = ''..@tmp'', ii_symbol = Some (TableSymbol ''..@tmp'')\<rparr>, example_parser)
   \<and> ParseSymbol example_parser \<lparr>ii_name = ''..start'', ii_symbol = None\<rparr>
     = (Some (SpecialSymbol ''start''), False,
        \<lparr>ii_name = ''..start'', ii_symbol = Some (SpecialSymbol ''start'')\<rparr>, example_parser)
   \<and> ParseSymbol example_parser \<lparr>ii_name = ''.loop'', ii_symbol = None\<rparr>
     = (Some (TableSymbol ''main.loop''), True,
        \<lparr>ii_name = ''.loop'', ii_symbol = None\<rparr>, example_parser)
   \<and> fst (ParseSymbol (DefineLabel example_parser (TableSymbol ''next'') False)
              \<lparr>ii_name = ''.loop'', ii_symbol = None\<rparr>)
     = Some (TableSymbol ''next.loop'')"
  using parse_symbol_resolution
          [where ii="\<lparr>ii_name = ''..@tmp'', ii_symbol = None\<rparr>" and p=example_parser
             and symb="TableSymbol ''next''"]
        parse_symbol_resolution
          [where ii="\<lparr>ii_name = ''..start'', ii_symbol = None\<rparr>" and p=example_parser
             and symb="TableSymbol ''next''"]
        parse_symbol_resolution
          [where ii="\<lparr>ii_name = ''.loop'', ii_symbol = None\<rparr>" and p=example_parser
             and symb="TableSymbol ''next''"]
  by (simp add: begins_with_def example_parser_def example_object_def)

subsection \<open>DirAlign in an absolute section\<close>

lemma eval_terms_append:
  "eval_terms (xs @ ys) =
     (case eval_terms xs of
        None \<Rightarrow> None
      | Some a \<Rightarrow> (case eval_terms ys of None \<Rightarrow> None | Some b \<Rightarrow> Some (a @ b)))"
proof (induction xs)
  case Nil
  show ?case by (simp split: option.splits)
next
  case (Cons t xs)
  then show ?case by (cases t) (auto split: option.splits)
qed

lemma eval_terms_length: "eval_terms ts = Some vs \<Longrightarrow> length vs = length ts"
proof (induction ts arbitrary: vs)
  case Nil
  then show ?case by simp
next
  case (Cons t ts)
  then show ?case by (cases t) (auto split: option.splits)
qed

lemma eval_int_IDENT:
  "eval_int e = Some v \<Longrightarrow> m_op e = IDENT \<Longrightarrow> eval_terms (m_terms e) = Some [v]"
  by (cases e) (auto simp: is_unary_def split: option.splits list.splits if_splits)

lemma eval_terms_single_expr:
  "eval_terms [EXPR sube] = Some [v] \<longleftrightarrow> eval_int sube = Some v"
  by (auto split: option.splits)

lemma add_term_find_eval:
  "eval_int e = Some v \<Longrightarrow> (\<And>p. copyfrom = Some p \<Longrightarrow> eval_terms (m_terms p) = Some [v])
   \<Longrightarrow> add_term_find e copyfrom = Some c \<Longrightarrow> eval_terms (m_terms c) = Some [v]"
proof (induction e copyfrom rule: add_term_find.induct)
  case (1 e copyfrom)
  show ?case
  proof (cases "m_op e = IDENT")
    case False
    then have "copyfrom = Some c" using "1.prems"(3) by (simp add: add_term_find.simps[of e])
    then show ?thesis using "1.prems"(2) by simp
  next
    case True
    then have ev: "eval_terms (m_terms e) = Some [v]" using "1.prems"(1) eval_int_IDENT by blast
    then have "length (m_terms e) = 1" using eval_terms_length by fastforce
    then obtain t where t: "m_terms e = [t]"
      by (cases "m_terms e") auto
    show ?thesis
    proof (cases "get_expr t")
      case None
      then have "c = e" using "1.prems"(3) True t by (simp add: add_term_find.simps[of e])
      then show ?thesis using ev by simp
    next
      case (Some sube)
      then have te: "t = EXPR sube" by (cases t) auto
      have rec: "add_term_find sube (Some e) = Some c"
        using "1.prems"(3) True t Some by (simp add: add_term_find.simps[of e])
      have sv: "eval_int sube = Some v" using ev t te eval_terms_single_expr by simp
      show ?thesis
        using "1.IH"[OF _ t refl Some sv _ rec] True ev by simp
    qed
  qed
qed

lemma add_term_eval:
  assumes "eval_int a = Some va" and "eval_terms ts = Some vs"
  shows "eval_terms (add_term ts (EXPR a)) = Some (vs @ [va])"
proof (cases "add_term_find a None")
  case None
  then show ?thesis using assms by (simp add: add_term_def eval_terms_append)
next
  case (Some c)
  then have "eval_terms (m_terms c) = Some [va]"
    using add_term_find_eval[OF assms(1), of None c] by simp
  then show ?thesis using assms Some by (simp add: add_term_def eval_terms_append)
qed

lemma Expr2_eval:
  assumes "eval_int a = Some va" and "eval_int b = Some vb"
    and "\<not> is_unary o1" and "\<not> nonnum o1"
  shows "eval_int (Expr2 (EXPR a) o1 (EXPR b)) =
           (case calc o1 va vb of Inl x \<Rightarrow> None | Inr r \<Rightarrow> Some r)"
proof -
  have "eval_terms (add_term [] (EXPR a)) = Some [va]"
    using add_term_eval[OF assms(1), of "[]" "[]"] by simp
  then have "eval_terms (add_term (add_term [] (EXPR a)) (EXPR b)) = Some [va, vb]"
    using add_term_eval[OF assms(2), of "add_term [] (EXPR a)" "[va]"] by simp
  then show ?thesis using assms(3,4) by (simp add: Expr2_def split: sum.splits)
qed

lemma Expr2_eval_int:
  assumes "eval_int a = Some va" and "\<not> is_unary o1" and "\<not> nonnum o1"
  shows "eval_int (Expr2 (EXPR a) o1 (INTN n)) =
           (case calc o1 va n of Inl x \<Rightarrow> None | Inr r \<Rightarrow> Some r)"
proof -
  have "eval_terms (add_term [] (EXPR a)) = Some [va]"
    using add_term_eval[OF assms(1), of "[]" "[]"] by simp
  then have "eval_terms (add_term (add_term [] (EXPR a)) (INTN n)) = Some [va, n]"
    by (simp add: add_term_def eval_terms_append)
  then show ?thesis using assms(2,3) by (simp add: Expr2_def split: sum.splits)
qed

lemma and_pow2_minus_1: "(x :: int) AND (2 ^ k - 1) = x mod 2 ^ k"
  by (simp flip: mask_eq_exp_minus_1 take_bit_eq_mask add: take_bit_eq_mod)

lemma align_arith:
  fixes s pos np :: int
  assumes np_def: "np = pos + (s - pos) mod 2 ^ k"
  shows "pos \<le> np" and "(np - s) mod 2 ^ k = 0" and "np - pos \<le> 2 ^ k - 1"
    and "\<And>q. pos \<le> q \<Longrightarrow> (q - s) mod 2 ^ k = 0 \<Longrightarrow> np \<le> q"
proof -
  let ?m = "(2 :: int) ^ k"
  have m: "0 < ?m" by simp
  show "pos \<le> np" unfolding np_def using m by simp
  show "(np - s) mod ?m = 0"
  proof -
    have "(np - s) mod ?m = ((pos - s) + (s - pos) mod ?m) mod ?m"
      unfolding np_def by (simp add: algebra_simps)
    also have "\<dots> = ((pos - s) + (s - pos)) mod ?m" by (simp add: mod_add_right_eq)
    finally show ?thesis by simp
  qed
  show "np - pos \<le> ?m - 1"
    unfolding np_def using pos_mod_bound[OF m, of "s - pos"] by simp
  fix q assume q: "pos \<le> q" "(q - s) mod ?m = 0"
  have "(s - pos) mod ?m = ((q - pos) - (q - s)) mod ?m" by (simp add: algebra_simps)
  also have "\<dots> = ((q - pos) mod ?m - (q - s) mod ?m) mod ?m" by (simp add: mod_diff_eq)
  also have "\<dots> = (q - pos) mod ?m" using q(2) by simp
  also have "\<dots> \<le> q - pos" using q(1) by (intro zmod_le_nonneg_dividend) simp
  finally show "np \<le> q" unfolding np_def by simp
qed

text \<open>
  C8: when the absolute start, the absolute position and the boundary evaluate to the
  integers \<open>s\<close>, \<open>pos\<close> and \<open>2 ^ k\<close>, \<open>DirAlign\<close> leaves the object (its
  sections and their bytecodes) untouched and adds \<open>(absstart - abspos) & (boundary - 1)\<close>
  to the absolute position; the new position is not below \<open>pos\<close>, its distance from
  \<open>s\<close> is a multiple of \<open>2 ^ k\<close>, the pad is at most \<open>2 ^ k - 1\<close>, and no
  position from \<open>pos\<close> on with such a distance is smaller.
\<close>

theorem align_in_absolute_section:
  assumes "eval_int (m_absstart p) = Some s" and "eval_int (m_abspos p) = Some pos"
    and "eval_int boundary = Some (2 ^ k)"
  shows "case DirAlign p boundary of
           Inl x \<Rightarrow> False
         | Inr p' \<Rightarrow>
             m_object p' = m_object p
             \<and> m_abspos p' =
                 Expr2 (EXPR (m_abspos p)) ADD
                   (EXPR (Expr2 (EXPR (Expr2 (EXPR (m_absstart p)) SUB (EXPR (m_abspos p)))) AND_OP
                            (EXPR (Expr2 (EXPR boundary) SUB (INTN 1)))))
             \<and> eval_int (m_abspos p') = Some (pos + ((s - pos) AND (2 ^ k - 1)))
             \<and> pos \<le> pos + ((s - pos) AND (2 ^ k - 1))
             \<and> (pos + ((s - pos) AND (2 ^ k - 1)) - s) mod 2 ^ k = 0
             \<and> (pos + ((s - pos) AND (2 ^ k - 1))) - pos \<le> 2 ^ k - 1
             \<and> (\<forall>q. pos \<le> q \<and> (q - s) mod 2 ^ k = 0 \<longrightarrow> pos + ((s - pos) AND (2 ^ k - 1)) \<le> q)"
proof -
  have ne: "\<not> isEmpty (m_abspos p)"
    using assms(2) by (cases "m_abspos p") (auto simp: isEmpty_def split: option.splits)
  have un: "\<not> is_unary SUB" "\<not> nonnum SUB" "\<not> is_unary AND_OP" "\<not> nonnum AND_OP"
    "\<not> is_unary ADD" "\<not> nonnum ADD"
    by (simp_all add: is_unary_def nonnum_def)
  have e1: "eval_int (Expr2 (EXPR (m_absstart p)) SUB (EXPR (m_abspos p))) = Some (s - pos)"
    using Expr2_eval[OF assms(1,2) un(1,2)] by simp
  have e2: "eval_int (Expr2 (EXPR boundary) SUB (INTN 1)) = Some (2 ^ k - 1)"
    using Expr2_eval_int[OF assms(3) un(1,2), of 1] by simp
  have e3: "eval_int (Expr2 (EXPR (Expr2 (EXPR (m_absstart p)) SUB (EXPR (m_abspos p)))) AND_OP
                            (EXPR (Expr2 (EXPR boundary) SUB (INTN 1))))
            = Some ((s - pos) AND (2 ^ k - 1))"
    using Expr2_eval[OF e1 e2 un(3,4)] by simp
  have e4: "eval_int (Expr2 (EXPR (m_abspos p)) ADD
                   (EXPR (Expr2 (EXPR (Expr2 (EXPR (m_absstart p)) SUB (EXPR (m_abspos p)))) AND_OP
                            (EXPR (Expr2 (EXPR boundary) SUB (INTN 1))))))
            = Some (pos + ((s - pos) AND (2 ^ k - 1)))"
    using Expr2_eval[OF assms(2) e3 un(5,6)] by simp
  show ?thesis
    using ne e4 align_arith[OF refl, where pos=pos and s=s and k=k]
    by (simp add: DirAlign_def Let_def and_pow2_minus_1)
qed


theorem align_in_absolute_section_witness:
  "(case DirAlign (DirAbsolute example_parser (Expr IDENT [INTN 259])
                    \<lparr>m_absstart := Expr IDENT [INTN 256]\<rparr>) (Expr IDENT [INTN 8]) of
      Inl x \<Rightarrow> False
    | Inr p' \<Rightarrow>
        eval_int (m_abspos p') = Some 264
        \<and> sections (m_object p') = [\<lparr>sect_align = 4, sect_bytecodes = [OtherBytecode]\<rparr>])"
  using align_in_absolute_section
          [where p="DirAbsolute example_parser (Expr IDENT [INTN 259])
                      \<lparr>m_absstart := Expr IDENT [INTN 256]\<rparr>"
             and s=256 and pos=259 and boundary="Expr IDENT [INTN 8]" and k=3]
  by (auto simp: DirAbsolute_def example_parser_def example_object_def split: sum.splits)

subsection \<open>expr6\<close>

text \<open>
  With an Object at hand an identifier operand is never reported: the reference makes
  the entry, so the handle is not null and the operand becomes the symbol.
\<close>

lemma expr6_identifier_with_object:
  assumes "i st = TOKEN_ID name" and "yasm_object st = Some tab"
  shows "expr6 cb e st
           = (True, Expr IDENT [SYM name],
              scan (st\<lparr>yasm_object := Some (if name \<in> set tab then tab else tab @ [name]),
                       used := used st @ [TableSymbol name]\<rparr>))"
  using assms by (simp add: expr6.simps[of cb e st] Object_getSymbol_def)

lemma expr6_here_base:
  "(i st = TOKEN_HERE
      \<longrightarrow> expr6 cb e st
          = (True, Expr IDENT [INTN 1],
             scan (report ERR_NONFATAL (CannotReferenceSymbolInPreprocessor ''$'') st)))
   \<and> (i st = TOKEN_BASE
      \<longrightarrow> expr6 cb e st
          = (True, Expr IDENT [INTN 1],
             scan (report ERR_NONFATAL (CannotReferenceSymbolInPreprocessor ''$$'') st)))"
  by (simp add: expr6.simps[of cb e st])

text \<open>
  C10: the identifier \<open>foo\<close> is not in the symbol table, which holds \<open>bar\<close> only.
  \<open>expr6\<close> reports nothing and does not put 1 in its place: \<open>getSymbol\<close> inserts
  the entry, the branch that reports "undefined symbol in preprocessor" is not taken,
  and the operand is the new undefined symbol.
\<close>

theorem expr6_undefined_symbol_unreported:
  "''foo'' \<notin> set [''bar'']
   \<and> expr6 example_callbacks empty_expr
        \<lparr>i = TOKEN_ID ''foo'', input = [TOKEN_CHAR CHR ''+'', TOKEN_NUM 2], errors = [],
         yasm_object = Some [''bar''], used = []\<rparr>
     = (True, Expr IDENT [SYM ''foo''],
        \<lparr>i = TOKEN_CHAR CHR ''+'', input = [TOKEN_NUM 2], errors = [],
         yasm_object = Some [''bar'', ''foo''], used = [TableSymbol ''foo'']\<rparr>)"
  by (simp add: expr6.simps[of example_callbacks empty_expr] Object_getSymbol_def scan_def)

end
